theory Spec2Isabelle
  imports Main "HOL-Library.Signed_Division"
begin

section \<open>C characters and strings\<close>

text \<open>
  The program under study is \<^verbatim>\<open>Uebung_1/Intmul/intmul.c\<close>: it reads two hexadecimal
  numbers, pads them to a common power-of-two length and multiplies them by recursive
  self-invocation on the four pairs of half operands.

  A \<^verbatim>\<open>char\<close> is an Isabelle \<^typ>\<open>char\<close> (one byte). A \<^verbatim>\<open>char *\<close> argument is
  modelled by the list of the bytes of its buffer; the C string it holds ends at the first
  NUL byte, or at the end of the list (where the terminator stands). The lengths that
  \<^verbatim>\<open>padAndAlignNumbers\<close> keeps in \<^verbatim>\<open>int\<close> are integers of 32 bits, the wrap-around
  written out. What it returns has at most \<open>2 ^ 30\<close> characters, so the lengths and loop
  counters of \<^verbatim>\<open>main\<close> are natural numbers: of its \<^verbatim>\<open>int\<close> values only \<open>2 * lenA\<close>
  can leave the type, at \<open>lenA = 2 ^ 30\<close> and after four children (and their \<open>4 ^ 29\<close>
  descendants each) have delivered their lines. Of the calls of \<^verbatim>\<open>malloc\<close> the one of
  \<^verbatim>\<open>padAndAlignNumbers\<close> is a parameter; the exhaustion of processes or pipes is outside
  the model.
\<close>

abbreviation NUL :: char where
  "NUL \<equiv> CHR 0x00"

abbreviation LF :: char where
  "LF \<equiv> CHR 0x0A"

definition cstr :: "string \<Rightarrow> string" where
  "cstr buf = takeWhile (\<lambda>c. c \<noteq> NUL) buf"

definition strlen :: "string \<Rightarrow> nat" where
  "strlen buf = length (cstr buf)"

text \<open>The value of a \<^verbatim>\<open>char\<close> in an integer expression (\<^verbatim>\<open>char\<close> is signed).\<close>

definition cval :: "char \<Rightarrow> int" where
  "cval c = (let n = of_char c in if n < 128 then n else n - 256)"

text \<open>\<^verbatim>\<open>isdigit\<close>, \<^verbatim>\<open>isxdigit\<close> and \<^verbatim>\<open>tolower\<close> of \<^verbatim>\<open>ctype.h\<close>, in the C locale.\<close>

definition isdigit :: "char \<Rightarrow> bool" where
  "isdigit c = (cval (CHR ''0'') \<le> cval c \<and> cval c \<le> cval (CHR ''9''))"

definition isxdigit :: "char \<Rightarrow> bool" where
  "isxdigit c =
     (isdigit c
      \<or> (cval (CHR ''a'') \<le> cval c \<and> cval c \<le> cval (CHR ''f''))
      \<or> (cval (CHR ''A'') \<le> cval c \<and> cval c \<le> cval (CHR ''F'')))"

definition tolower :: "char \<Rightarrow> char" where
  "tolower c =
     (if cval (CHR ''A'') \<le> cval c \<and> cval c \<le> cval (CHR ''Z'')
      then char_of (cval c + 32) else c)"

section \<open>Validation and digit conversion\<close>

text \<open>
  \<^verbatim>\<open>isValidHexadecimal\<close>: the loop runs to the terminating NUL and returns 0 at the first
  byte that is neither a hexadecimal digit nor a line feed.
\<close>

fun isValidHexadecimal :: "string \<Rightarrow> int" where
  "isValidHexadecimal [] = 1"
| "isValidHexadecimal (c # s) =
     (if c = NUL then 1
      else if \<not> ((cval c \<ge> cval (CHR ''0'') \<and> cval c \<le> cval (CHR ''9''))
                \<or> (cval c \<ge> cval (CHR ''a'') \<and> cval c \<le> cval (CHR ''f''))
                \<or> (cval c \<ge> cval (CHR ''A'') \<and> cval c \<le> cval (CHR ''F''))
                \<or> c = LF)
      then 0
      else isValidHexadecimal s)"

definition hexDigitToInt :: "char \<Rightarrow> int" where
  "hexDigitToInt hex =
     (if isxdigit hex then
        (if isdigit hex then cval hex - cval (CHR ''0'')
         else cval (tolower hex) - cval (CHR ''a'') + 10)
      else - 1)"

definition hex_digits :: string where
  "hex_digits = ''0123456789abcdef''"

text \<open>\<^verbatim>\<open>intToHex\<close> returns \<^verbatim>\<open>(char) -1\<close>, the byte 0xFF, outside 0..15.\<close>

definition intToHex :: "int \<Rightarrow> char" where
  "intToHex num =
     (if num \<ge> 0 \<and> num \<le> 15 then hex_digits ! nat num else CHR 0xFF)"

text \<open>
  \<^verbatim>\<open>addHexDigits\<close>: the carry is read from and written back through the pointer, so the
  model takes it and returns the digit together with the new carry. \<^verbatim>\<open>/\<close> and \<^verbatim>\<open>%\<close>
  truncate towards zero.
\<close>

definition addHexDigits :: "char \<Rightarrow> char \<Rightarrow> char \<Rightarrow> char \<times> char" where
  "addHexDigits a b carryOut =
     (let numA = hexDigitToInt a;
          numB = hexDigitToInt b;
          numCarry = hexDigitToInt carryOut;
          result = numA + numB + 16 * numCarry
      in (intToHex (result smod 16), intToHex (result sdiv 16)))"

section \<open>Reading the input\<close>

text \<open>
  Every diagnostic goes to \<^verbatim>\<open>stderr\<close> and, but for the last two loops of \<^verbatim>\<open>main\<close>,
  is followed by \<^verbatim>\<open>exit(EXIT_FAILURE)\<close>. The model keeps which diagnostic was written,
  not its wording.
\<close>

datatype diagnostic =
    Usage
  | ErrorReadingFirst
  | EmptyFirst
  | ErrorReadingSecond
  | EmptySecond
  | InvalidFirst
  | InvalidSecond
  | MemoryAllocationError
  | ErrorInChild nat
  | ErrorReadingPipe

abbreviation (input) EXIT_SUCCESS :: int where
  "EXIT_SUCCESS \<equiv> 0"

abbreviation (input) EXIT_FAILURE :: int where
  "EXIT_FAILURE \<equiv> 1"

text \<open>
  \<^verbatim>\<open>getline\<close> on a stream with the given bytes left: \<open>None\<close> is the return value -1
  (nothing left to read); otherwise the buffer holds the bytes up to and including the
  first line feed, or all of them when there is none, and the stream keeps the rest. The
  number of bytes read, which \<^verbatim>\<open>getline\<close> returns, is the length of the buffer.
\<close>

definition getline :: "string \<Rightarrow> (string \<times> string) option" where
  "getline stream =
     (if stream = [] then None
      else case dropWhile (\<lambda>c. c \<noteq> LF) stream of
             [] \<Rightarrow> Some (stream, [])
           | _ # rest \<Rightarrow> Some (takeWhile (\<lambda>c. c \<noteq> LF) stream @ [LF], rest))"

text \<open>The trimming at the end of \<^verbatim>\<open>readInput\<close>: a NUL written over a final line feed.\<close>

definition trimNewline :: "string \<Rightarrow> string" where
  "trimNewline input =
     (let len = strlen input
      in if len > 0 \<and> input ! (len - 1) = LF then input[len - 1 := NUL] else input)"

definition readInput :: "string \<Rightarrow> diagnostic + string \<times> string" where
  "readInput stdin =
     (case getline stdin of
        None \<Rightarrow> Inl ErrorReadingFirst
      | Some (inputA, stdin') \<Rightarrow>
          if length inputA = 1 \<and> inputA ! 0 = LF then Inl EmptyFirst
          else
            (case getline stdin' of
               None \<Rightarrow> Inl ErrorReadingSecond
             | Some (inputB, _) \<Rightarrow>
                 if length inputB = 1 \<and> inputB ! 0 = LF then Inl EmptySecond
                 else if isValidHexadecimal inputA = 0 then Inl InvalidFirst
                 else if isValidHexadecimal inputB = 0 then Inl InvalidSecond
                 else Inr (trimNewline inputA, trimNewline inputB)))"

section \<open>Padding and splitting\<close>

text \<open>
  \<^verbatim>\<open>padAndAlignNumbers\<close> counts in \<^verbatim>\<open>int\<close>: \<open>to_int\<close> is the value that an
  \<^verbatim>\<open>int\<close> of 32 bits keeps of a number (two's complement, the wrap-around written
  out). It is applied where the source converts a length to \<^verbatim>\<open>int\<close> and where it
  doubles \<open>maxLength\<close>.
\<close>

definition to_int :: "int \<Rightarrow> int" where
  "to_int x = (x + 2 ^ 31) mod 2 ^ 32 - 2 ^ 31"

text \<open>
  The doubling loop. Past \<open>2 ^ 30\<close> the doubling wraps to a negative number and then to
  0, where it stays: the loop may run forever, so not returning is the value \<open>None\<close>.
\<close>

partial_function (option) maxLength_loop :: "int \<Rightarrow> int \<Rightarrow> int \<Rightarrow> int option" where
  "maxLength_loop maxLength lenA lenB =
     (if maxLength < lenA \<or> maxLength < lenB
      then maxLength_loop (to_int (maxLength * 2)) lenA lenB
      else Some maxLength)"

declare maxLength_loop.simps [code]

text \<open>
  \<open>allocated\<close> says whether both calls of \<^verbatim>\<open>malloc\<close> return a buffer; when one does
  not, the function writes its diagnostic and exits. The buffers have \<open>maxLength + 1\<close>
  bytes: \<^verbatim>\<open>memset\<close> and \<^verbatim>\<open>strcpy\<close> stay inside them only when \<open>lenA\<close> and \<open>lenB\<close>
  are the lengths of the strings (a length from \<open>2 ^ 31\<close> on is not what the \<^verbatim>\<open>int\<close>
  holds); otherwise the call has no defined result.
\<close>

definition padAndAlignNumbers ::
    "bool \<Rightarrow> string \<Rightarrow> string \<Rightarrow> (diagnostic + string \<times> string) option" where
  "padAndAlignNumbers allocated numA numB =
     (let lenA = to_int (int (strlen numA));
          lenB = to_int (int (strlen numB))
      in case maxLength_loop 1 lenA lenB of
           None \<Rightarrow> None
         | Some maxLength \<Rightarrow>
             if \<not> allocated then Some (Inl MemoryAllocationError)
             else if lenA = int (strlen numA) \<and> lenB = int (strlen numB) then
               Some (Inr (replicate (nat (maxLength - lenA)) (CHR ''0'') @ cstr numA,
                          replicate (nat (maxLength - lenB)) (CHR ''0'') @ cstr numB))
             else None)"

text \<open>
  \<^verbatim>\<open>splitNumbers\<close> fills four buffers of \<open>mid + 1\<close> bytes. The copies stay inside the
  buffers, and start inside \<^verbatim>\<open>numB\<close>, only under the condition below; otherwise the
  call has no defined result.
\<close>

definition splitNumbers :: "string \<Rightarrow> string \<Rightarrow> (string \<times> string \<times> string \<times> string) option" where
  "splitNumbers numA numB =
     (let len = strlen numA;
          mid = len div 2
      in if len - mid \<le> mid \<and> mid \<le> strlen numB \<and> strlen numB - mid \<le> mid
         then Some (take mid (cstr numA), take mid (drop mid (cstr numA)),
                    take mid (cstr numB), take mid (drop mid (cstr numB)))
         else None)"

section \<open>Children\<close>

text \<open>What \<^verbatim>\<open>sendInputToChild\<close> writes to the pipe: both strings, a line each.\<close>

definition sendInputToChild :: "string \<Rightarrow> string \<Rightarrow> string" where
  "sendInputToChild A B = cstr A @ [LF] @ cstr B @ [LF]"

definition WEXITSTATUS :: "int \<Rightarrow> int" where
  "WEXITSTATUS status = (status div 256) mod 256"

text \<open>
  \<^verbatim>\<open>waitForChildren\<close>, given the status that \<^verbatim>\<open>waitpid\<close> stores for each child, in the
  order of the array. The result lists the children that were waited for, and holds the
  diagnostic when the loop ended in \<^verbatim>\<open>exit(EXIT_FAILURE)\<close>.
\<close>

fun waitForChildren_from :: "nat \<Rightarrow> int list \<Rightarrow> nat list \<times> diagnostic option" where
  "waitForChildren_from i [] = ([], None)"
| "waitForChildren_from i (status # rest) =
     (if WEXITSTATUS status \<noteq> EXIT_SUCCESS then ([i], Some (ErrorInChild i))
      else (let (waited, failed) = waitForChildren_from (Suc i) rest
            in (i # waited, failed)))"

definition waitForChildren :: "int list \<Rightarrow> nat list \<times> diagnostic option" where
  "waitForChildren statuses = waitForChildren_from 0 statuses"

text \<open>The loop that reads one line from each child's pipe.\<close>

fun readResults :: "string list \<Rightarrow> diagnostic + string list" where
  "readResults [] = Inr []"
| "readResults (pipe # pipes) =
     (case getline pipe of
        None \<Rightarrow> Inl ErrorReadingPipe
      | Some (line, _) \<Rightarrow>
          (case readResults pipes of
             Inl d \<Rightarrow> Inl d
           | Inr lines \<Rightarrow> Inr (line # lines)))"

section \<open>Shifting and summing the partial results\<close>

text \<open>
  The shifting loops of \<^verbatim>\<open>main\<close> assign every cell \<open>j\<close> of row \<open>i\<close> of
  \<^verbatim>\<open>shiftedResults\<close> exactly once; \<open>shiftedCell\<close> is the value assigned, by the loop
  whose range holds \<open>j\<close>. Cell \<open>j\<close> of a line read from a child is read only below
  \<open>lenA\<close>: a shorter line leaves the read without a defined value.
\<close>

definition shiftedCell :: "nat \<Rightarrow> string list \<Rightarrow> nat \<Rightarrow> nat \<Rightarrow> char" where
  "shiftedCell lenA intermediateResults i j =
     (let currentStringLength = lenA;
          zerosBefore = lenA div 2
      in if i = 0 then
           (if j < currentStringLength then intermediateResults ! i ! j else CHR ''0'')
         else if i = 1 \<or> i = 2 then
           (if j < zerosBefore then CHR ''0''
            else if j < zerosBefore + currentStringLength
              then intermediateResults ! i ! (j - zerosBefore)
            else CHR ''0'')
         else
           (if j < lenA then CHR ''0'' else intermediateResults ! i ! (j - lenA)))"

definition shiftResults :: "nat \<Rightarrow> string list \<Rightarrow> string list option" where
  "shiftResults lenA intermediateResults =
     (let maxStringLength = 2 * lenA
      in if list_ex (\<lambda>line. length line < lenA) intermediateResults then None
         else Some (map (\<lambda>i. map (shiftedCell lenA intermediateResults i) [0..<maxStringLength])
                      [0..<4]))"

text \<open>
  The inner loop of the summation at column \<open>i\<close>: \<^verbatim>\<open>final_result[i]\<close> starts as the
  carry of the column to the right, the carry restarts at \<^verbatim>\<open>'0'\<close>, and the four rows are
  added one after the other. The result is the digit and the carry left for the next
  column.
\<close>

definition addColumn :: "string list \<Rightarrow> nat \<Rightarrow> char \<Rightarrow> char \<times> char" where
  "addColumn shiftedResults i carry_digit =
     foldl (\<lambda>(digit, carry) j. addHexDigits digit (shiftedResults ! j ! i) carry)
       (carry_digit, CHR ''0'') [0..<4]"

text \<open>
  The outer loop, from column \<open>n - 1\<close> down to column 0, with \<open>n\<close> columns left: the
  digits of columns \<open>0..<n\<close> and the carry out of column 0.
\<close>

fun sumResults :: "string list \<Rightarrow> nat \<Rightarrow> char \<Rightarrow> string \<times> char" where
  "sumResults shiftedResults 0 carry_digit = ([], carry_digit)"
| "sumResults shiftedResults (Suc i) carry_digit =
     (let (digit, carry) = addColumn shiftedResults i carry_digit;
          (digits, final_carry) = sumResults shiftedResults i carry
      in (digits @ [digit], final_carry))"

section \<open>The base case\<close>

text \<open>
  \<^verbatim>\<open>printf("%02x", res)\<close>: \<open>res\<close> is converted to \<^verbatim>\<open>unsigned int\<close> and written in
  lowercase hexadecimal, with zeros on the left up to two digits.
\<close>

function hexadecimal :: "nat \<Rightarrow> string" where
  "hexadecimal n =
     (if n < 16 then [hex_digits ! n] else hexadecimal (n div 16) @ [hex_digits ! (n mod 16)])"
  by pat_completeness auto
termination
  by (relation "measure id") auto

declare hexadecimal.simps [simp del]

definition printf_02x :: "int \<Rightarrow> string" where
  "printf_02x res =
     (let digits = hexadecimal (nat (res mod 2 ^ 32))
      in replicate (2 - length digits) (CHR ''0'') @ digits)"

text \<open>The first byte of a buffer (\<^verbatim>\<open>*inputA\<close>): the terminator when the string is empty.\<close>

definition first_char :: "string \<Rightarrow> char" where
  "first_char buf = (case buf of [] \<Rightarrow> NUL | c # _ \<Rightarrow> c)"

definition baseCase :: "string \<Rightarrow> string \<Rightarrow> string" where
  "baseCase inputA inputB =
     (let a = tolower (first_char inputA);
          b = tolower (first_char inputB);
          br1 = hexDigitToInt a;
          br2 = hexDigitToInt b;
          res = br1 * br2
      in printf_02x res @ [LF])"

section \<open>The program\<close>

text \<open>
  What a run leaves behind: its exit status, what it wrote to \<^verbatim>\<open>stdout\<close> and the
  diagnostics it wrote itself to \<^verbatim>\<open>stderr\<close>.
\<close>

record outcome =
  status :: int
  out :: string
  err :: "diagnostic list"

definition failure :: "diagnostic \<Rightarrow> outcome" where
  "failure d = \<lparr>status = EXIT_FAILURE, out = [], err = [d]\<rparr>"

text \<open>The status that \<^verbatim>\<open>waitpid\<close> stores for a child that ended with the given exit status.\<close>

definition wait_status :: "outcome \<Rightarrow> int" where
  "wait_status child = (status child mod 256) * 256"

text \<open>
  The parent after the four children have been started and fed: it waits for them, reads
  one line from each, shifts, sums and prints.
\<close>

definition collectAndCombine :: "nat \<Rightarrow> outcome list \<Rightarrow> outcome option" where
  "collectAndCombine lenA children =
     (case snd (waitForChildren (map wait_status children)) of
        Some d \<Rightarrow> Some (failure d)
      | None \<Rightarrow>
          (case readResults (map out children) of
             Inl d \<Rightarrow> Some (failure d)
           | Inr intermediateResults \<Rightarrow>
               (case shiftResults lenA intermediateResults of
                  None \<Rightarrow> None
                | Some shiftedResults \<Rightarrow>
                    (let final_result = fst (sumResults shiftedResults (2 * lenA) (CHR ''0''))
                     in Some \<lparr>status = 0, out = cstr final_result @ [LF], err = []\<rparr>))))"

text \<open>
  \<^verbatim>\<open>main\<close>, given \<^verbatim>\<open>argc\<close> and the bytes on \<^verbatim>\<open>stdin\<close>. Each child executes the
  same program with no argument, its \<^verbatim>\<open>stdin\<close> the pipe the parent writes the two half
  operands to, its \<^verbatim>\<open>stdout\<close> the pipe the parent reads the partial result from. \<open>None\<close>
  is a run without a defined result.
\<close>

partial_function (option) main :: "int \<Rightarrow> string \<Rightarrow> outcome option" where
  "main argc stdin =
     (if argc \<noteq> 1 then Some (failure Usage)
      else
        (case readInput stdin of
           Inl d \<Rightarrow> Some (failure d)
         | Inr (readA, readB) \<Rightarrow>
             (case padAndAlignNumbers True readA readB of
                None \<Rightarrow> None
              | Some (Inl d) \<Rightarrow> Some (failure d)
              | Some (Inr (inputA, inputB)) \<Rightarrow>
                  (let lenA = strlen inputA
                   in if lenA > 1 then
                        (case splitNumbers inputA inputB of
                           None \<Rightarrow> None
                         | Some (Ah, Al, Bh, Bl) \<Rightarrow>
                             Option.bind (main 1 (sendInputToChild Ah Bh)) (\<lambda>child0.
                             Option.bind (main 1 (sendInputToChild Ah Bl)) (\<lambda>child1.
                             Option.bind (main 1 (sendInputToChild Al Bh)) (\<lambda>child2.
                             Option.bind (main 1 (sendInputToChild Al Bl)) (\<lambda>child3.
                               collectAndCombine lenA [child0, child1, child2, child3])))))
                      else if lenA = 1 then
                        Some \<lparr>status = 0, out = baseCase inputA inputB, err = []\<rparr>
                      else Some \<lparr>status = 0, out = [], err = []\<rparr>))))"

declare main.simps [code]

section \<open>Notions of the specification\<close>

text \<open>
  A hexadecimal digit in either case, its value, and the value of a string of digits read
  with the most significant digit first.
\<close>

definition is_hex_digit :: "char \<Rightarrow> bool" where
  "is_hex_digit c = (c \<in> set ''0123456789abcdefABCDEF'')"

definition digit_value :: "char \<Rightarrow> nat" where
  "digit_value c =
     (case map_of (zip ''0123456789abcdefABCDEF''
                       [0, 1, 2, 3, 4, 5, 6, 7, 8, 9, 10, 11, 12, 13, 14, 15,
                        10, 11, 12, 13, 14, 15]) c of
        Some v \<Rightarrow> v
      | None \<Rightarrow> 0)"

definition hex_value :: "string \<Rightarrow> nat" where
  "hex_value s = foldl (\<lambda>n c. 16 * n + digit_value c) 0 s"

text \<open>The smallest power of two that is at least \<open>n\<close>, as the specification names it.\<close>

function nextPow2 :: "nat \<Rightarrow> nat" where
  "nextPow2 n = (if n \<le> 1 then 1 else 2 * nextPow2 ((n + 1) div 2))"
  by pat_completeness auto
termination
  by (relation "measure id") auto

declare nextPow2.simps [simp del]

text \<open>
  The rendering the specification asks for: \<open>n\<close> in lowercase hexadecimal, with zeros on
  the left up to \<open>w\<close> digits (the digits of \<open>n\<close> modulo \<open>16 ^ w\<close>).
\<close>

fun to_hex :: "nat \<Rightarrow> nat \<Rightarrow> string" where
  "to_hex 0 n = []"
| "to_hex (Suc w) n = to_hex w (n div 16) @ [hex_digits ! (n mod 16)]"

text \<open>Four rows whose first \<open>n\<close> cells are hexadecimal digits.\<close>

definition digit_rows :: "nat \<Rightarrow> string list \<Rightarrow> bool" where
  "digit_rows n rows =
     (\<forall>j<4. n \<le> length (rows ! j) \<and> (\<forall>i<n. is_hex_digit (rows ! j ! i)))"


text \<open>
  The first line of a stream without its line feed, and what follows that line.
\<close>

definition first_line :: "string \<Rightarrow> string" where
  "first_line stream = takeWhile (\<lambda>c. c \<noteq> LF) stream"

definition after_first_line :: "string \<Rightarrow> string" where
  "after_first_line stream = drop (Suc (length (first_line stream))) stream"

section \<open>Digits\<close>

lemma isValidHexadecimal_step:
  "c \<in> set ''0123456789abcdefABCDEF'' \<union> {LF} \<Longrightarrow>
   isValidHexadecimal (c # s) = isValidHexadecimal s"
  apply (simp only: set_simps Un_iff insert_iff empty_iff)
  apply (elim disjE)
  apply (simp_all add: cval_def)
  done

lemma hexDigitToInt_digit: "is_hex_digit c \<Longrightarrow> hexDigitToInt c = int (digit_value c)"
  unfolding is_hex_digit_def
  apply (simp only: set_simps insert_iff empty_iff)
  apply (elim disjE)
  apply (simp_all add: hexDigitToInt_def isxdigit_def isdigit_def tolower_def cval_def
      digit_value_def)
  done

lemma digit_value_lt: "is_hex_digit c \<Longrightarrow> digit_value c < 16"
  unfolding is_hex_digit_def
  apply (simp only: set_simps insert_iff empty_iff)
  apply (elim disjE)
  apply (simp_all add: digit_value_def)
  done

lemma below_16_cases: "n < 16 \<Longrightarrow> n \<in> set [0, 1, 2, 3, 4, 5, 6, 7, 8, 9, 10, 11, 12, 13, 14, 15 :: nat]"
  by (simp only: set_simps insert_iff empty_iff) arith

lemma hex_digits_nth:
  "n < 16 \<Longrightarrow>
   is_hex_digit (hex_digits ! n) \<and> digit_value (hex_digits ! n) = n \<and>
   hex_digits ! n \<in> set hex_digits \<and> hex_digits ! n \<noteq> NUL"
  apply (drule below_16_cases)
  apply (simp only: set_simps insert_iff empty_iff)
  apply (elim disjE)
  apply (simp_all add: hex_digits_def is_hex_digit_def digit_value_def)
  done

lemma intToHex_nat: "n < 16 \<Longrightarrow> intToHex (int n) = hex_digits ! n"
  by (simp add: intToHex_def)

lemma smod_nat: "int n smod 16 = int (n mod 16)"
  by (simp add: smod_int_alt_def sgn_if zmod_int)

lemma sdiv_nat: "int n sdiv 16 = int (n div 16)"
  by (simp add: signed_divide_int_def sgn_if zdiv_int)

lemma addHexDigits_digits:
  assumes "is_hex_digit a" "is_hex_digit b" "is_hex_digit c"
    and "digit_value c + (digit_value a + digit_value b) div 16 < 16"
  shows "addHexDigits a b c =
     (hex_digits ! ((digit_value a + digit_value b) mod 16),
      hex_digits ! (digit_value c + (digit_value a + digit_value b) div 16))"
proof -
  let ?s = "digit_value a + digit_value b + 16 * digit_value c"
  have r: "hexDigitToInt a + hexDigitToInt b + 16 * hexDigitToInt c = int ?s"
    using assms by (simp add: hexDigitToInt_digit)
  have m: "?s mod 16 = (digit_value a + digit_value b) mod 16"
    by simp
  have d: "?s div 16 = digit_value c + (digit_value a + digit_value b) div 16"
    by simp
  show ?thesis
    unfolding addHexDigits_def Let_def r smod_nat sdiv_nat m d
    using assms(4) by (simp only: intToHex_nat mod_less_divisor zero_less_numeral)
qed

section \<open>The validator\<close>

lemma isValidHexadecimal_accepts:
  "set s \<subseteq> set ''0123456789abcdefABCDEF'' \<union> {LF} \<Longrightarrow> isValidHexadecimal s = 1"
proof (induction s)
  case Nil
  show ?case by simp
next
  case (Cons c s)
  then have "c \<in> set ''0123456789abcdefABCDEF'' \<union> {LF}"
    by simp
  then have "isValidHexadecimal (c # s) = isValidHexadecimal s"
    by (rule isValidHexadecimal_step)
  with Cons show ?case by simp
qed

text \<open>
  Claim C10. The validator accepts every string made only of the characters 0-9, a-f, A-F
  and line feed, in any order and number: the empty string, and strings with line feeds
  at any position.
\<close>

theorem isValidHexadecimal_accepts_digits_and_newlines:
  "set s \<subseteq> set ''0123456789abcdefABCDEF'' \<union> {LF} \<Longrightarrow> isValidHexadecimal s = 1"
  by (rule isValidHexadecimal_accepts)

theorem isValidHexadecimal_accepts_witness:
  "isValidHexadecimal [] = 1 \<and> isValidHexadecimal [LF, CHR ''a'', LF, LF, CHR ''F'', CHR ''0''] = 1"
proof
  show "isValidHexadecimal [] = 1"
    by (rule isValidHexadecimal_accepts_digits_and_newlines) simp
  show "isValidHexadecimal [LF, CHR ''a'', LF, LF, CHR ''F'', CHR ''0''] = 1"
    by (rule isValidHexadecimal_accepts_digits_and_newlines) simp
qed

section \<open>Waiting for the children\<close>

text \<open>
  Claim C2 says that all four children are waited for before a failure is passed on. The
  loop of \<^verbatim>\<open>waitForChildren\<close> calls \<^verbatim>\<open>exit\<close> at the first child whose exit status is
  not \<^verbatim>\<open>EXIT_SUCCESS\<close>: when child 0 ends with status 1 (wait status 256), only child 0
  has been waited for, and children 1 to 3 never are.
\<close>

theorem waitForChildren_exits_at_first_failure:
  "waitForChildren [256, 0, 0, 0] = ([0], Some (ErrorInChild 0))"
  by (simp add: waitForChildren_def WEXITSTATUS_def)

section \<open>One column of the sum\<close>

lemma upt_0_4: "[0..<4] = [0, 1, 2, 3]"
  by (simp add: upt_rec)

lemma addHexDigits_step:
  assumes "is_hex_digit a" "is_hex_digit d" "is_hex_digit k" "digit_value k \<le> 14"
  obtains x y where "addHexDigits a d k = (hex_digits ! x, hex_digits ! y)"
    "x < 16" "y \<le> digit_value k + 1"
    "x + 16 * y = digit_value a + digit_value d + 16 * digit_value k"
proof -
  let ?x = "(digit_value a + digit_value d) mod 16"
  let ?y = "digit_value k + (digit_value a + digit_value d) div 16"
  have a: "digit_value a < 16" and d: "digit_value d < 16"
    using assms by (simp_all add: digit_value_lt)
  then have q: "(digit_value a + digit_value d) div 16 \<le> 1"
    by arith
  with assms(4) have "?y < 16" by arith
  then have "addHexDigits a d k = (hex_digits ! ?x, hex_digits ! ?y)"
    using assms by (simp add: addHexDigits_digits)
  moreover have "?x < 16" by simp
  moreover have "?y \<le> digit_value k + 1" using q by arith
  moreover have "?x + 16 * ?y = digit_value a + digit_value d + 16 * digit_value k"
    by (simp add: algebra_simps)
  ultimately show thesis by (rule that)
qed

lemma digit_value_zero: "is_hex_digit (CHR ''0'') \<and> digit_value (CHR ''0'') = 0"
  by (simp add: is_hex_digit_def digit_value_def)

lemma addHexDigits_step':
  assumes "x < 16" "is_hex_digit d" "y \<le> 14"
  obtains x' y' where
    "addHexDigits (hex_digits ! x) d (hex_digits ! y) = (hex_digits ! x', hex_digits ! y')"
    "x' < 16" "y' \<le> y + 1" "x' + 16 * y' = x + digit_value d + 16 * y"
proof -
  have hx: "is_hex_digit (hex_digits ! x)" "digit_value (hex_digits ! x) = x"
    using assms(1) hex_digits_nth [of x] by simp_all
  have hy: "is_hex_digit (hex_digits ! y)" "digit_value (hex_digits ! y) = y"
    using assms(3) hex_digits_nth [of y] by simp_all
  from hy(2) assms(3) have "digit_value (hex_digits ! y) \<le> 14" by simp
  from addHexDigits_step [OF hx(1) assms(2) hy(1) this]
  obtain x' y' where
    "addHexDigits (hex_digits ! x) d (hex_digits ! y) = (hex_digits ! x', hex_digits ! y')"
    "x' < 16" "y' \<le> digit_value (hex_digits ! y) + 1"
    "x' + 16 * y' = digit_value (hex_digits ! x) + digit_value d + 16 * digit_value (hex_digits ! y)"
    by blast
  then show thesis
    unfolding hx(2) hy(2) by (rule that)
qed

lemma addColumn_sum:
  assumes rows: "is_hex_digit (shiftedResults ! 0 ! i)" "is_hex_digit (shiftedResults ! 1 ! i)"
      "is_hex_digit (shiftedResults ! 2 ! i)" "is_hex_digit (shiftedResults ! 3 ! i)"
    and carry: "is_hex_digit carry_in"
  shows "addColumn shiftedResults i carry_in =
     (hex_digits ! ((digit_value (shiftedResults ! 0 ! i) + digit_value (shiftedResults ! 1 ! i)
                     + digit_value (shiftedResults ! 2 ! i) + digit_value (shiftedResults ! 3 ! i)
                     + digit_value carry_in) mod 16),
      hex_digits ! ((digit_value (shiftedResults ! 0 ! i) + digit_value (shiftedResults ! 1 ! i)
                     + digit_value (shiftedResults ! 2 ! i) + digit_value (shiftedResults ! 3 ! i)
                     + digit_value carry_in) div 16))"
proof -
  let ?d0 = "shiftedResults ! 0 ! i" and ?d1 = "shiftedResults ! 1 ! i"
  let ?d2 = "shiftedResults ! 2 ! i" and ?d3 = "shiftedResults ! 3 ! i"
  have z: "is_hex_digit (CHR ''0'')" "digit_value (CHR ''0'') \<le> 14" "digit_value (CHR ''0'') = 0"
    using digit_value_zero by simp_all
  from addHexDigits_step [OF carry rows(1) z(1) z(2)]
  obtain x1 y1 where s1: "addHexDigits carry_in ?d0 (CHR ''0'') = (hex_digits ! x1, hex_digits ! y1)"
    and b1: "x1 < 16" "y1 \<le> digit_value (CHR ''0'') + 1"
    and e1: "x1 + 16 * y1 = digit_value carry_in + digit_value ?d0 + 16 * digit_value (CHR ''0'')"
    by blast
  from b1 z(3) have c1: "y1 \<le> 14" by simp
  from addHexDigits_step' [OF b1(1) rows(2) c1]
  obtain x2 y2 where s2: "addHexDigits (hex_digits ! x1) ?d1 (hex_digits ! y1) = (hex_digits ! x2, hex_digits ! y2)"
    and b2: "x2 < 16" "y2 \<le> y1 + 1" and e2: "x2 + 16 * y2 = x1 + digit_value ?d1 + 16 * y1"
    by blast
  from b2 b1 z(3) have c2: "y2 \<le> 14" by simp
  from addHexDigits_step' [OF b2(1) rows(3) c2]
  obtain x3 y3 where s3: "addHexDigits (hex_digits ! x2) ?d2 (hex_digits ! y2) = (hex_digits ! x3, hex_digits ! y3)"
    and b3: "x3 < 16" "y3 \<le> y2 + 1" and e3: "x3 + 16 * y3 = x2 + digit_value ?d2 + 16 * y2"
    by blast
  from b3 b2 b1 z(3) have c3: "y3 \<le> 14" by simp
  from addHexDigits_step' [OF b3(1) rows(4) c3]
  obtain x4 y4 where s4: "addHexDigits (hex_digits ! x3) ?d3 (hex_digits ! y3) = (hex_digits ! x4, hex_digits ! y4)"
    and b4: "x4 < 16" "y4 \<le> y3 + 1" and e4: "x4 + 16 * y4 = x3 + digit_value ?d3 + 16 * y3"
    by blast
  define S where "S = digit_value ?d0 + digit_value ?d1 + digit_value ?d2 + digit_value ?d3
              + digit_value carry_in"
  have "S = x4 + 16 * y4"
    unfolding S_def using e1 e2 e3 e4 z(3) by linarith
  with b4(1) have "S mod 16 = x4" "S div 16 = y4"
    by simp_all
  moreover have "addColumn shiftedResults i carry_in = (hex_digits ! x4, hex_digits ! y4)"
    unfolding addColumn_def upt_0_4 by (simp only: foldl_Cons foldl_Nil s1 s2 s3 s4 prod.case)
  ultimately show ?thesis
    unfolding S_def by simp
qed

section \<open>The base case\<close>

lemma hexDigitToInt_tolower:
  "is_hex_digit c \<Longrightarrow> hexDigitToInt (tolower c) = int (digit_value c)"
  unfolding is_hex_digit_def
  apply (simp only: set_simps insert_iff empty_iff)
  apply (elim disjE)
  apply (simp_all add: hexDigitToInt_def isxdigit_def isdigit_def tolower_def cval_def
      digit_value_def)
  done

lemma hexadecimal_byte:
  "n < 256 \<Longrightarrow>
   replicate (2 - length (hexadecimal n)) (CHR ''0'') @ hexadecimal n =
     [hex_digits ! (n div 16), hex_digits ! (n mod 16)]"
proof (cases "n < 16")
  case True
  then show ?thesis
    by (simp add: hexadecimal.simps [of n] hex_digits_def)
next
  case False
  assume "n < 256"
  then have "n div 16 < 16" by simp
  then have "hexadecimal (n div 16) = [hex_digits ! (n div 16)]"
    by (simp add: hexadecimal.simps [of "n div 16"])
  with False show ?thesis
    by (simp add: hexadecimal.simps [of n])
qed

lemma printf_02x_byte:
  "n < 256 \<Longrightarrow> printf_02x (int n) = [hex_digits ! (n div 16), hex_digits ! (n mod 16)]"
proof -
  assume n: "n < 256"
  then have "int n mod 2 ^ 32 = int n" by simp
  then show ?thesis
    unfolding printf_02x_def Let_def using hexadecimal_byte [OF n] by simp
qed

lemma baseCase_digits:
  assumes "is_hex_digit a" "is_hex_digit b"
  shows "baseCase [a] [b] =
           [hex_digits ! ((digit_value a * digit_value b) div 16),
            hex_digits ! ((digit_value a * digit_value b) mod 16), LF]
         \<and> digit_value a * digit_value b \<le> 225"
proof -
  have "digit_value a \<le> 15" "digit_value b \<le> 15"
    using assms digit_value_lt [of a] digit_value_lt [of b] by simp_all
  then have "digit_value a * digit_value b \<le> 15 * 15"
    by (rule mult_le_mono)
  then have p: "digit_value a * digit_value b \<le> 225" by simp
  then have "digit_value a * digit_value b < 256" by simp
  then have "printf_02x (int (digit_value a * digit_value b)) =
      [hex_digits ! ((digit_value a * digit_value b) div 16),
       hex_digits ! ((digit_value a * digit_value b) mod 16)]"
    by (rule printf_02x_byte)
  then have "baseCase [a] [b] =
           [hex_digits ! ((digit_value a * digit_value b) div 16),
            hex_digits ! ((digit_value a * digit_value b) mod 16), LF]"
    using assms by (simp add: baseCase_def first_char_def hexDigitToInt_tolower
        del: of_nat_mult flip: of_nat_mult)
  with p show ?thesis by simp
qed

text \<open>
  Claim C6. For two single hexadecimal digits the base case prints their product, which is
  at most 225, as exactly two lowercase hexadecimal digits, the most significant first,
  and a line feed; \<open>f\<close> times \<open>f\<close> gives \<open>e1\<close>.
\<close>

theorem baseCase_product:
  assumes "is_hex_digit a" "is_hex_digit b"
  shows "baseCase [a] [b] =
           [hex_digits ! ((digit_value a * digit_value b) div 16),
            hex_digits ! ((digit_value a * digit_value b) mod 16), LF]
         \<and> digit_value a * digit_value b \<le> 225"
  using assms by (rule baseCase_digits)

theorem baseCase_product_witness:
  "is_hex_digit (CHR ''f'') \<and> baseCase ''f'' ''f'' = ''e1'' @ [LF]"
proof -
  have f: "is_hex_digit (CHR ''f'')"
    by (simp add: is_hex_digit_def)
  from baseCase_product [OF f f] show ?thesis
    using f by (simp add: digit_value_def hex_digits_def)
qed

section \<open>Padding to a power of two\<close>

lemma nextPow2_is_power: "\<exists>k. nextPow2 n = 2 ^ k"
proof (induction n rule: nextPow2.induct)
  case (1 n)
  show ?case
  proof (cases "n \<le> 1")
    case True
    then have "nextPow2 n = 2 ^ 0" by (simp add: nextPow2.simps [of n])
    then show ?thesis ..
  next
    case False
    with 1 obtain k where "nextPow2 ((n + 1) div 2) = 2 ^ k" by auto
    with False have "nextPow2 n = 2 ^ Suc k" by (simp add: nextPow2.simps [of n])
    then show ?thesis ..
  qed
qed

lemma nextPow2_ge: "n \<le> nextPow2 n"
proof (induction n rule: nextPow2.induct)
  case (1 n)
  show ?case
  proof (cases "n \<le> 1")
    case True
    then show ?thesis by (simp add: nextPow2.simps [of n])
  next
    case False
    with 1 have "(n + 1) div 2 \<le> nextPow2 ((n + 1) div 2)" by simp
    with False show ?thesis by (simp add: nextPow2.simps [of n])
  qed
qed

lemma nextPow2_least: "n \<le> 2 ^ k \<Longrightarrow> nextPow2 n \<le> 2 ^ k"
proof (induction n arbitrary: k rule: nextPow2.induct)
  case (1 n)
  show ?case
  proof (cases "n \<le> 1")
    case True
    then show ?thesis by (simp add: nextPow2.simps [of n])
  next
    case False
    with "1.prems" obtain j where k: "k = Suc j"
      by (cases k) auto
    with "1.prems" have "(n + 1) div 2 \<le> 2 ^ j" by simp
    with 1 False have "nextPow2 ((n + 1) div 2) \<le> 2 ^ j" by simp
    with False k show ?thesis by (simp add: nextPow2.simps [of n])
  qed
qed

lemma nextPow2_power: "nextPow2 (2 ^ k) = 2 ^ k"
proof (rule antisym)
  show "nextPow2 (2 ^ k) \<le> 2 ^ k" by (rule nextPow2_least) simp
  show "2 ^ k \<le> nextPow2 (2 ^ k)" by (rule nextPow2_ge)
qed

lemma to_int_id: "- (2 ^ 31) \<le> x \<Longrightarrow> x < 2 ^ 31 \<Longrightarrow> to_int x = x"
  by (simp add: to_int_def)

lemma to_int_length: "n \<le> 2 ^ 30 \<Longrightarrow> to_int (int n) = int n"
  by (rule to_int_id) simp_all

lemma power_below_int_max: "k \<le> 30 \<Longrightarrow> (2::int) ^ k < 2 ^ 31"
proof -
  assume "k \<le> 30"
  then have "(2::int) ^ k \<le> 2 ^ 30"
    by (rule power_increasing) simp
  then show ?thesis by simp
qed

lemma maxLength_loop_from_power:
  assumes "nextPow2 (max lenA lenB) = 2 ^ K" "K \<le> 30" "k \<le> K"
  shows "maxLength_loop (2 ^ k) (int lenA) (int lenB) = Some (2 ^ K)"
  using assms(3)
proof (induction "K - k" arbitrary: k)
  case 0
  then have k: "k = K" by simp
  have "max lenA lenB \<le> 2 ^ K"
    using nextPow2_ge [of "max lenA lenB"] assms(1) by simp
  then have "\<not> (2 ^ K < lenA \<or> 2 ^ K < lenB)" by auto
  then have "\<not> (2 ^ K < int lenA \<or> 2 ^ K < int lenB)" by simp
  then show ?case
    unfolding k by (subst maxLength_loop.simps) (simp only: if_False)
next
  case (Suc d)
  then have lt: "k < K" and d: "d = K - Suc k" and le: "Suc k \<le> K" by simp_all
  show ?case
  proof (cases "2 ^ k < lenA \<or> 2 ^ k < lenB")
    case True
    then have c: "2 ^ k < int lenA \<or> 2 ^ k < int lenB" by simp
    have "Suc k \<le> 30" using le assms(2) by simp
    then have "(2::int) ^ Suc k < 2 ^ 31" by (rule power_below_int_max)
    moreover have "- (2 ^ 31) \<le> (2::int) ^ Suc k"
      by (rule order_trans [of _ 0]) simp_all
    ultimately have w: "to_int (2 ^ k * 2) = 2 ^ Suc k"
      using to_int_id [of "2 ^ Suc k"] by (simp add: mult.commute)
    have "maxLength_loop (2 ^ Suc k) (int lenA) (int lenB) = Some (2 ^ K)"
      using d le by (rule Suc.hyps(1))
    with c show ?thesis
      by (subst maxLength_loop.simps) (simp only: if_True w)
  next
    case False
    then have "max lenA lenB \<le> 2 ^ k" by auto
    then have "nextPow2 (max lenA lenB) \<le> 2 ^ k" by (rule nextPow2_least)
    with assms(1) have "(2::nat) ^ K \<le> 2 ^ k" by simp
    with lt have False by simp
    then show ?thesis ..
  qed
qed

lemma nextPow2_bounded:
  assumes "n \<le> 2 ^ 30"
  obtains K where "nextPow2 n = 2 ^ K" "K \<le> 30"
proof -
  obtain K where K: "nextPow2 n = 2 ^ K"
    using nextPow2_is_power by blast
  from assms have "nextPow2 n \<le> 2 ^ 30" by (rule nextPow2_least)
  with K have le: "(2::nat) ^ K \<le> 2 ^ 30" by simp
  have "K \<le> 30"
  proof (rule ccontr)
    assume "\<not> K \<le> 30"
    then have "31 \<le> K" by simp
    then have "(2::nat) ^ 31 \<le> 2 ^ K"
      by (rule power_increasing) simp
    with le show False by simp
  qed
  with K show thesis by (rule that)
qed

lemma maxLength_loop_nextPow2:
  assumes "lenA \<le> 2 ^ 30" "lenB \<le> 2 ^ 30"
  shows "maxLength_loop 1 (int lenA) (int lenB) = Some (int (nextPow2 (max lenA lenB)))"
proof -
  from assms have "max lenA lenB \<le> 2 ^ 30" by simp
  then obtain K where K: "nextPow2 (max lenA lenB) = 2 ^ K" "K \<le> 30"
    by (rule nextPow2_bounded)
  from maxLength_loop_from_power [OF K, of 0] show ?thesis
    by (simp add: K(1))
qed

lemma padAndAlignNumbers_eq:
  assumes "strlen numA \<le> 2 ^ 30" "strlen numB \<le> 2 ^ 30"
  shows "padAndAlignNumbers True numA numB =
     Some (Inr (replicate (nextPow2 (max (strlen numA) (strlen numB)) - strlen numA) (CHR ''0'')
                  @ cstr numA,
                replicate (nextPow2 (max (strlen numA) (strlen numB)) - strlen numB) (CHR ''0'')
                  @ cstr numB))"
  unfolding padAndAlignNumbers_def Let_def to_int_length [OF assms(1)] to_int_length [OF assms(2)]
    maxLength_loop_nextPow2 [OF assms]
  by (simp add: nat_diff_distrib')

text \<open>When an allocation fails the function exits with its diagnostic.\<close>

lemma padAndAlignNumbers_not_allocated:
  assumes "strlen numA \<le> 2 ^ 30" "strlen numB \<le> 2 ^ 30"
  shows "padAndAlignNumbers False numA numB = Some (Inl MemoryAllocationError)"
  unfolding padAndAlignNumbers_def Let_def to_int_length [OF assms(1)] to_int_length [OF assms(2)]
    maxLength_loop_nextPow2 [OF assms]
  by simp

text \<open>
  Past \<open>2 ^ 30\<close> characters the loop does not end: \<open>maxLength\<close> reaches \<open>2 ^ 30\<close>, wraps
  to \<open>- 2 ^ 31\<close> and then to 0, and 0 doubled is 0.
\<close>

lemma maxLength_loop_at_zero:
  assumes "0 < lenA \<or> 0 < lenB"
  shows "maxLength_loop 0 lenA lenB = None"
proof (cases "maxLength_loop 0 lenA lenB")
  case None
  then show ?thesis .
next
  case (Some y)
  have "\<not> ((0::int) = 0 \<and> (0 < lenA \<or> 0 < lenB))"
  proof (rule maxLength_loop.raw_induct
      [where P = "\<lambda>m a b r. \<not> (m = 0 \<and> (0 < a \<or> 0 < b))", OF _ Some])
    fix loop :: "int \<Rightarrow> int \<Rightarrow> int \<Rightarrow> int option" and m a b r :: int
    assume IH: "\<And>m a b r. loop m a b = Some r \<Longrightarrow> \<not> (m = 0 \<and> (0 < a \<or> 0 < b))"
      and eq: "(if m < a \<or> m < b then loop (to_int (m * 2)) a b else Some m) = Some r"
    show "\<not> (m = 0 \<and> (0 < a \<or> 0 < b))"
    proof
      assume z: "m = 0 \<and> (0 < a \<or> 0 < b)"
      with eq have "loop (to_int (0 * 2)) a b = Some r"
        by (simp split: if_splits)
      then have "loop 0 a b = Some r"
        by (simp add: to_int_def)
      from IH [OF this] z show False by blast
    qed
  qed
  with assms show ?thesis by simp
qed

lemma maxLength_loop_past_int:
  assumes "2 ^ 30 < lenA \<or> 2 ^ 30 < lenB" "k \<le> 30"
  shows "maxLength_loop (2 ^ k) lenA lenB = None"
  using assms(2)
proof (induction "30 - k" arbitrary: k)
  case 0
  then have k: "k = 30" by simp
  have pos: "0 < lenA \<or> 0 < lenB"
    using assms(1) by auto
  have neg: "- (2 ^ 31) < lenA \<or> - (2 ^ 31) < lenB"
    using assms(1) by auto
  have w1: "to_int (2 ^ 30 * 2) = - (2 ^ 31)" and w2: "to_int (- (2 ^ 31) * 2) = 0"
    by (simp_all add: to_int_def)
  have "maxLength_loop (2 ^ 30) lenA lenB = maxLength_loop (- (2 ^ 31)) lenA lenB"
    using assms(1) by (subst maxLength_loop.simps) (simp only: if_True w1)
  also have "\<dots> = maxLength_loop 0 lenA lenB"
    using neg by (subst maxLength_loop.simps) (simp only: if_True w2)
  also have "\<dots> = None"
    using pos by (rule maxLength_loop_at_zero)
  finally show ?case
    unfolding k .
next
  case (Suc d)
  then have le: "Suc k \<le> 30" and d: "d = 30 - Suc k" by simp_all
  have "(2::int) ^ k \<le> 2 ^ 30"
    using Suc.prems by (intro power_increasing) simp_all
  with assms(1) have c: "2 ^ k < lenA \<or> 2 ^ k < lenB" by auto
  have "(2::int) ^ Suc k < 2 ^ 31" using le by (rule power_below_int_max)
  moreover have "- (2 ^ 31) \<le> (2::int) ^ Suc k"
    by (rule order_trans [of _ 0]) simp_all
  ultimately have w: "to_int (2 ^ k * 2) = 2 ^ Suc k"
    using to_int_id [of "2 ^ Suc k"] by (simp add: mult.commute)
  have "maxLength_loop (2 ^ Suc k) lenA lenB = None"
    using d le by (rule Suc.hyps(1))
  with c show ?case
    by (subst maxLength_loop.simps) (simp only: if_True w)
qed

lemma maxLength_loop_diverges:
  "2 ^ 30 < lenA \<or> 2 ^ 30 < lenB \<Longrightarrow> maxLength_loop 1 lenA lenB = None"
  using maxLength_loop_past_int [of lenA lenB 0] by simp

lemma cstr_no_NUL: "NUL \<notin> set (cstr buf)"
  unfolding cstr_def by (induction buf) auto

lemma cstr_id: "NUL \<notin> set s \<Longrightarrow> cstr s = s"
  unfolding cstr_def by (induction s) auto

lemma cstr_cstr: "cstr (cstr buf) = cstr buf"
  by (rule cstr_id) (rule cstr_no_NUL)

lemma strlen_cstr: "strlen (cstr buf) = strlen buf"
  by (simp add: strlen_def cstr_cstr)

lemma strlen_id: "NUL \<notin> set s \<Longrightarrow> strlen s = length s"
  by (simp add: strlen_def cstr_id)

lemma strlen_zeros: "strlen (replicate n (CHR ''0'')) = n"
  by (simp add: strlen_id)

lemma padAndAlignNumbers_too_long:
  assumes "2 ^ 30 < strlen numA" "strlen numA < 2 ^ 31" "strlen numB \<le> 2 ^ 30"
  shows "padAndAlignNumbers allocated numA numB = None"
proof -
  have a: "to_int (int (strlen numA)) = int (strlen numA)"
    using assms(2) by (intro to_int_id) simp_all
  have "(2::int) ^ 30 = int (2 ^ 30)" by simp
  also have "\<dots> < int (strlen numA)"
    using assms(1) by (simp only: of_nat_less_iff)
  finally have "2 ^ 30 < to_int (int (strlen numA))"
    by (simp only: a)
  then have "maxLength_loop 1 (to_int (int (strlen numA))) (to_int (int (strlen numB))) = None"
    by (intro maxLength_loop_diverges) simp
  then show ?thesis
    unfolding padAndAlignNumbers_def Let_def by simp
qed

text \<open>
  A length of \<open>2 ^ 31\<close> is kept as \<open>- (2 ^ 31)\<close>: the loop stops at once with 1, and the
  buffers of two bytes cannot take the copies.
\<close>

lemma padAndAlignNumbers_truncated:
  assumes "strlen numA = 2 ^ 31" "strlen numB = 2 ^ 31"
  shows "padAndAlignNumbers True numA numB = None"
proof -
  have t: "to_int (int (2 ^ 31)) = - (2 ^ 31)"
    by (simp add: to_int_def)
  have "maxLength_loop 1 (- (2 ^ 31)) (- (2 ^ 31)) = Some 1"
    by (subst maxLength_loop.simps) simp
  then show ?thesis
    unfolding padAndAlignNumbers_def Let_def assms t by simp
qed

text \<open>
  Claim C3, amended. For two strings of at most \<open>2 ^ 30\<close> characters each (and both
  buffers allocated) \<^verbatim>\<open>padAndAlignNumbers\<close> returns, and its \<open>maxLength\<close> is the
  smallest power of two that is at least the longer of the two strings: it is a power of
  two, it is at least both lengths, and no smaller power of two is. Both strings get zeros
  on the left up to exactly that length, so the resulting pair has equal power-of-two
  length.
\<close>

theorem padAndAlignNumbers_smallest_power_of_two:
  assumes "strlen numA \<le> 2 ^ 30" "strlen numB \<le> 2 ^ 30"
  shows
  "let maxLength = nextPow2 (max (strlen numA) (strlen numB));
       paddedA = replicate (maxLength - strlen numA) (CHR ''0'') @ cstr numA;
       paddedB = replicate (maxLength - strlen numB) (CHR ''0'') @ cstr numB
   in padAndAlignNumbers True numA numB = Some (Inr (paddedA, paddedB))
      \<and> length paddedA = maxLength \<and> length paddedB = maxLength
      \<and> strlen paddedA = maxLength \<and> strlen paddedB = maxLength
      \<and> (\<exists>k. maxLength = 2 ^ k)
      \<and> max (strlen numA) (strlen numB) \<le> maxLength
      \<and> (\<forall>k. max (strlen numA) (strlen numB) \<le> 2 ^ k \<longrightarrow> maxLength \<le> 2 ^ k)"
proof -
  define m where "m = nextPow2 (max (strlen numA) (strlen numB))"
  define pA where "pA = replicate (m - strlen numA) (CHR ''0'') @ cstr numA"
  define pB where "pB = replicate (m - strlen numB) (CHR ''0'') @ cstr numB"
  have ge: "max (strlen numA) (strlen numB) \<le> m"
    unfolding m_def by (rule nextPow2_ge)
  have pad: "padAndAlignNumbers True numA numB = Some (Inr (pA, pB))"
    unfolding pA_def pB_def m_def using assms by (rule padAndAlignNumbers_eq)
  have lA: "length pA = m" and lB: "length pB = m"
    using ge by (simp_all add: pA_def pB_def strlen_def)
  have "NUL \<notin> set pA" "NUL \<notin> set pB"
    using cstr_no_NUL [of numA] cstr_no_NUL [of numB] by (auto simp: pA_def pB_def)
  then have sA: "strlen pA = m" and sB: "strlen pB = m"
    using lA lB by (simp_all add: strlen_id)
  have pw: "\<exists>k. m = 2 ^ k"
    unfolding m_def by (rule nextPow2_is_power)
  have least: "\<forall>k. max (strlen numA) (strlen numB) \<le> 2 ^ k \<longrightarrow> m \<le> 2 ^ k"
    unfolding m_def by (simp add: nextPow2_least)
  from pad lA lB sA sB pw ge least show ?thesis
    unfolding Let_def m_def [symmetric] pA_def [symmetric] pB_def [symmetric] by simp
qed

theorem padAndAlignNumbers_witness:
  "padAndAlignNumbers True ''3'' ''12'' = Some (Inr (''03'', ''12''))"
proof -
  have "nextPow2 (Suc 0) = 1"
    by (simp add: nextPow2.simps [of "Suc 0"])
  then have n: "nextPow2 (Suc (Suc 0)) = 2"
    by (simp add: nextPow2.simps [of "Suc (Suc 0)"])
  have "strlen ''3'' \<le> 2 ^ 30" "strlen ''12'' \<le> 2 ^ 30"
    by (simp_all add: strlen_def cstr_def)
  from padAndAlignNumbers_smallest_power_of_two [OF this] show ?thesis
    by (simp add: Let_def strlen_def cstr_def n)
qed

text \<open>
  The claim as the specification has it, for every pair of non-empty inputs, fails on a
  first operand of \<open>2 ^ 30 + 1\<close> digits: the doubling of \<open>maxLength\<close> leaves
  \<^verbatim>\<open>int\<close> and the loop never ends.
\<close>

theorem padAndAlignNumbers_long_operand:
  "padAndAlignNumbers True (replicate (2 ^ 30 + 1) (CHR ''0'')) ''0'' = None"
proof (rule padAndAlignNumbers_too_long)
  show "2 ^ 30 < strlen (replicate (2 ^ 30 + 1) (CHR ''0''))"
    by (simp only: strlen_zeros)
  show "strlen (replicate (2 ^ 30 + 1) (CHR ''0'')) < 2 ^ 31"
    unfolding strlen_zeros by simp
  show "strlen ''0'' \<le> 2 ^ 30"
    by (simp add: strlen_def cstr_def)
qed

text \<open>
  Claim C7, amended. Padding is idempotent on operands of at most \<open>2 ^ 30\<close> characters: a
  pair of strings that already have the same power-of-two length \<open>2 ^ k\<close>, \<open>k \<le> 30\<close>, is
  returned unchanged.
\<close>

theorem padAndAlignNumbers_idempotent:
  assumes "strlen numA = 2 ^ k" "strlen numB = 2 ^ k" "k \<le> 30"
  shows "padAndAlignNumbers True numA numB = Some (Inr (cstr numA, cstr numB))"
proof -
  have "(2::nat) ^ k \<le> 2 ^ 30"
    using assms(3) by (intro power_increasing) simp_all
  then have "strlen numA \<le> 2 ^ 30" "strlen numB \<le> 2 ^ 30"
    by (simp_all only: assms(1,2))
  then have "padAndAlignNumbers True numA numB =
      Some (Inr (replicate (nextPow2 (max (strlen numA) (strlen numB)) - strlen numA) (CHR ''0'')
                   @ cstr numA,
                 replicate (nextPow2 (max (strlen numA) (strlen numB)) - strlen numB) (CHR ''0'')
                   @ cstr numB))"
    by (rule padAndAlignNumbers_eq)
  then show ?thesis
    by (simp add: assms(1,2) nextPow2_power)
qed

theorem padAndAlignNumbers_idempotent_witness:
  "padAndAlignNumbers True ''03'' ''12'' = Some (Inr (''03'', ''12''))"
proof -
  have "strlen ''03'' = 2 ^ 1" "strlen ''12'' = 2 ^ 1" "(1::nat) \<le> 30"
    by (simp_all add: strlen_def cstr_def)
  then have "padAndAlignNumbers True ''03'' ''12'' = Some (Inr (cstr ''03'', cstr ''12''))"
    by (rule padAndAlignNumbers_idempotent)
  then show ?thesis by (simp add: cstr_def)
qed

text \<open>
  Without the bound the claim fails on two operands of \<open>2 ^ 31\<close> digits, a pair of equal
  power-of-two length: the call has no defined result.
\<close>

theorem padAndAlignNumbers_not_idempotent:
  "padAndAlignNumbers True (replicate (2 ^ 31) (CHR ''0'')) (replicate (2 ^ 31) (CHR ''0''))
     = None"
  by (rule padAndAlignNumbers_truncated) (simp_all only: strlen_zeros)

section \<open>Numbers as strings of digits\<close>

lemma hex_value_foldl:
  "foldl (\<lambda>n c. 16 * n + digit_value c) m s =
   m * 16 ^ length s + foldl (\<lambda>n c. 16 * n + digit_value c) 0 s"
proof (induction s arbitrary: m)
  case Nil
  show ?case by simp
next
  case (Cons c s)
  show ?case
    using Cons.IH [of "16 * m + digit_value c"] Cons.IH [of "digit_value c"]
    by (simp add: algebra_simps)
qed

lemma hex_value_Nil: "hex_value [] = 0"
  by (simp add: hex_value_def)

lemma hex_value_append:
  "hex_value (xs @ ys) = hex_value xs * 16 ^ length ys + hex_value ys"
  unfolding hex_value_def foldl_append
  by (rule hex_value_foldl)

lemma hex_value_single: "hex_value [c] = digit_value c"
  by (simp add: hex_value_def)

lemma hex_value_snoc: "hex_value (xs @ [c]) = 16 * hex_value xs + digit_value c"
  by (simp add: hex_value_append hex_value_single)

lemma hex_value_zeros: "hex_value (replicate n (CHR ''0'')) = 0"
proof (induction n)
  case 0
  show ?case by (simp add: hex_value_Nil)
next
  case (Suc n)
  have "replicate (Suc n) (CHR ''0'') = replicate n (CHR ''0'') @ [CHR ''0'']"
    by (simp add: replicate_append_same)
  then show ?case
    using Suc digit_value_zero by (simp add: hex_value_snoc)
qed

lemma hex_value_bound:
  "\<forall>c\<in>set s. is_hex_digit c \<Longrightarrow> hex_value s < 16 ^ length s"
proof (induction s rule: rev_induct)
  case Nil
  show ?case by (simp add: hex_value_Nil)
next
  case (snoc c s)
  then have "hex_value s < 16 ^ length s" and "digit_value c < 16"
    by (simp_all add: digit_value_lt)
  then have "16 * hex_value s + digit_value c < 16 * 16 ^ length s"
    by arith
  then show ?case by (simp add: hex_value_snoc)
qed

lemma lower_is_hex_digit: "c \<in> set hex_digits \<Longrightarrow> is_hex_digit c"
  by (auto simp: hex_digits_def is_hex_digit_def)

lemma lower_digit_nth: "c \<in> set hex_digits \<Longrightarrow> hex_digits ! digit_value c = c"
  unfolding hex_digits_def
  apply (simp only: set_simps insert_iff empty_iff)
  apply (elim disjE)
  apply (simp_all add: digit_value_def)
  done



lemma to_hex_unique:
  "set s \<subseteq> set hex_digits \<Longrightarrow> to_hex (length s) (hex_value s) = s"
proof (induction s rule: rev_induct)
  case Nil
  show ?case by simp
next
  case (snoc c s)
  then have c: "c \<in> set hex_digits" and IH: "to_hex (length s) (hex_value s) = s"
    by simp_all
  have lt: "digit_value c < 16"
    using c by (simp add: digit_value_lt lower_is_hex_digit)
  have "(16 * hex_value s + digit_value c) div 16 = hex_value s"
    and "(16 * hex_value s + digit_value c) mod 16 = digit_value c"
    using lt by simp_all
  then show ?case
    using IH c by (simp add: hex_value_snoc lower_digit_nth)
qed


section \<open>The shifted rows\<close>

lemma shiftedCell_row0:
  assumes "n \<le> length (irs ! 0)"
  shows "map (shiftedCell n irs 0) [0..<2 * n] = take n (irs ! 0) @ replicate n (CHR ''0'')"
proof (rule map_upt_eqI)
  show "length (take n (irs ! 0) @ replicate n (CHR ''0'')) = 2 * n - 0"
    using assms by simp
next
  fix j
  assume "j < length (take n (irs ! 0) @ replicate n (CHR ''0''))"
  then show "(take n (irs ! 0) @ replicate n (CHR ''0'')) ! j = shiftedCell n irs 0 (0 + j)"
    using assms by (simp add: shiftedCell_def nth_append)
qed

lemma shiftedCell_row_mid:
  assumes "n \<le> length (irs ! i)" "i = 1 \<or> i = 2"
  shows "map (shiftedCell n irs i) [0..<2 * n] =
     replicate (n div 2) (CHR ''0'') @ take n (irs ! i) @ replicate (n - n div 2) (CHR ''0'')"
    (is "_ = ?row")
proof (rule map_upt_eqI)
  show "length ?row = 2 * n - 0"
    using assms by simp
next
  fix j
  assume "j < length ?row"
  then have j: "j < 2 * n" using assms by simp
  have i: "i \<noteq> 0" using assms(2) by auto
  show "?row ! j = shiftedCell n irs i (0 + j)"
  proof (cases "j < n div 2")
    case True
    then show ?thesis
      using assms i by (simp add: shiftedCell_def nth_append)
  next
    case False
    note nl = this
    show ?thesis
    proof (cases "j < n div 2 + n")
      case True
      with nl have "j - n div 2 < n" by arith
      with nl True show ?thesis
        using assms i by (simp add: shiftedCell_def nth_append)
    next
      case False
      with nl j have "j - n div 2 - n < n - n div 2" and "\<not> j - n div 2 < n" by arith+
      with nl False show ?thesis
        using assms i by (simp add: shiftedCell_def nth_append)
    qed
  qed
qed

lemma shiftedCell_row3:
  assumes "n \<le> length (irs ! 3)"
  shows "map (shiftedCell n irs 3) [0..<2 * n] = replicate n (CHR ''0'') @ take n (irs ! 3)"
proof (rule map_upt_eqI)
  show "length (replicate n (CHR ''0'') @ take n (irs ! 3)) = 2 * n - 0"
    using assms by simp
next
  fix j
  assume "j < length (replicate n (CHR ''0'') @ take n (irs ! 3))"
  then have "j < 2 * n" using assms by simp
  then show "(replicate n (CHR ''0'') @ take n (irs ! 3)) ! j = shiftedCell n irs 3 (0 + j)"
    using assms by (simp add: shiftedCell_def nth_append)
qed

lemma shiftResults_rows:
  assumes "n \<le> length l0" "n \<le> length l1" "n \<le> length l2" "n \<le> length l3"
  shows "shiftResults n [l0, l1, l2, l3] =
     Some [take n l0 @ replicate n (CHR ''0''),
           replicate (n div 2) (CHR ''0'') @ take n l1 @ replicate (n - n div 2) (CHR ''0''),
           replicate (n div 2) (CHR ''0'') @ take n l2 @ replicate (n - n div 2) (CHR ''0''),
           replicate n (CHR ''0'') @ take n l3]"
proof -
  let ?irs = "[l0, l1, l2, l3]"
  have r0: "map (shiftedCell n ?irs 0) [0..<2 * n] = take n l0 @ replicate n (CHR ''0'')"
    using shiftedCell_row0 [of n ?irs] assms by simp
  have r1: "map (shiftedCell n ?irs 1) [0..<2 * n] =
      replicate (n div 2) (CHR ''0'') @ take n l1 @ replicate (n - n div 2) (CHR ''0'')"
    using shiftedCell_row_mid [of n ?irs 1] assms by simp
  have r2: "map (shiftedCell n ?irs 2) [0..<2 * n] =
      replicate (n div 2) (CHR ''0'') @ take n l2 @ replicate (n - n div 2) (CHR ''0'')"
    using shiftedCell_row_mid [of n ?irs 2] assms by simp
  have r3: "map (shiftedCell n ?irs 3) [0..<2 * n] = replicate n (CHR ''0'') @ take n l3"
    using shiftedCell_row3 [of n ?irs] assms by simp
  have "\<not> list_ex (\<lambda>line. length line < n) ?irs"
    using assms by simp
  then show ?thesis
    unfolding shiftResults_def Let_def upt_0_4
    by (simp only: if_False list.map r0 r1 r2 r3)
qed

section \<open>The sum of the rows\<close>

lemma digit_rows_Suc: "digit_rows (Suc n) rows \<Longrightarrow> digit_rows n rows"
  unfolding digit_rows_def by (meson Suc_leD less_Suc_eq)

lemma digit_rows_column:
  assumes "digit_rows (Suc n) rows"
  shows "is_hex_digit (rows ! 0 ! n)" "is_hex_digit (rows ! 1 ! n)"
    "is_hex_digit (rows ! 2 ! n)" "is_hex_digit (rows ! 3 ! n)"
  using assms by (simp_all add: digit_rows_def)

lemma digit_rows_take:
  assumes "digit_rows (Suc n) rows" "j < 4"
  shows "hex_value (take (Suc n) (rows ! j)) =
         16 * hex_value (take n (rows ! j)) + digit_value (rows ! j ! n)"
proof -
  have "n < length (rows ! j)"
    using assms by (simp add: digit_rows_def Suc_le_eq)
  then have "take (Suc n) (rows ! j) = take n (rows ! j) @ [rows ! j ! n]"
    by (rule take_Suc_conv_app_nth)
  then show ?thesis by (simp add: hex_value_snoc)
qed

lemma sumResults_value:
  assumes "digit_rows n rows" "carry \<in> set hex_digits"
  shows "\<exists>digits final. sumResults rows n carry = (digits, final)
     \<and> length digits = n \<and> set digits \<subseteq> set hex_digits \<and> final \<in> set hex_digits
     \<and> hex_value digits + 16 ^ n * digit_value final =
         hex_value (take n (rows ! 0)) + hex_value (take n (rows ! 1))
         + hex_value (take n (rows ! 2)) + hex_value (take n (rows ! 3)) + digit_value carry"
  using assms
proof (induction n arbitrary: carry)
  case 0
  then show ?case by (simp add: hex_value_Nil)
next
  case (Suc n)
  let ?d0 = "digit_value (rows ! 0 ! n)" and ?d1 = "digit_value (rows ! 1 ! n)"
  let ?d2 = "digit_value (rows ! 2 ! n)" and ?d3 = "digit_value (rows ! 3 ! n)"
  define S where "S = ?d0 + ?d1 + ?d2 + ?d3 + digit_value carry"
  note col = digit_rows_column [OF Suc.prems(1)]
  have carry: "is_hex_digit carry"
    using Suc.prems(2) by (rule lower_is_hex_digit)
  have column: "addColumn rows n carry = (hex_digits ! (S mod 16), hex_digits ! (S div 16))"
    unfolding S_def by (rule addColumn_sum [OF col carry])
  have "?d0 < 16" "?d1 < 16" "?d2 < 16" "?d3 < 16" "digit_value carry < 16"
    using col carry by (simp_all add: digit_value_lt)
  then have "S < 80" unfolding S_def by arith
  then have q: "S div 16 < 16" by arith
  have c': "hex_digits ! (S div 16) \<in> set hex_digits"
    and vc': "digit_value (hex_digits ! (S div 16)) = S div 16"
    using hex_digits_nth [OF q] by simp_all
  have d: "hex_digits ! (S mod 16) \<in> set hex_digits"
    and vd: "digit_value (hex_digits ! (S mod 16)) = S mod 16"
    using hex_digits_nth [of "S mod 16"] by simp_all
  from Suc.IH [OF digit_rows_Suc [OF Suc.prems(1)] c']
  obtain digits final where
    rec: "sumResults rows n (hex_digits ! (S div 16)) = (digits, final)"
    and len: "length digits = n" and low: "set digits \<subseteq> set hex_digits"
    and fin: "final \<in> set hex_digits"
    and val: "hex_value digits + 16 ^ n * digit_value final =
         hex_value (take n (rows ! 0)) + hex_value (take n (rows ! 1))
         + hex_value (take n (rows ! 2)) + hex_value (take n (rows ! 3)) + S div 16"
    unfolding vc' by blast
  have res: "sumResults rows (Suc n) carry = (digits @ [hex_digits ! (S mod 16)], final)"
    by (simp add: column rec)
  have t: "hex_value (take (Suc n) (rows ! 0)) = 16 * hex_value (take n (rows ! 0)) + ?d0"
    "hex_value (take (Suc n) (rows ! 1)) = 16 * hex_value (take n (rows ! 1)) + ?d1"
    "hex_value (take (Suc n) (rows ! 2)) = 16 * hex_value (take n (rows ! 2)) + ?d2"
    "hex_value (take (Suc n) (rows ! 3)) = 16 * hex_value (take n (rows ! 3)) + ?d3"
    using digit_rows_take [OF Suc.prems(1)] by simp_all
  have "hex_value (digits @ [hex_digits ! (S mod 16)]) + 16 ^ Suc n * digit_value final =
        16 * (hex_value digits + 16 ^ n * digit_value final) + S mod 16"
    by (simp add: hex_value_snoc vd algebra_simps)
  also have "\<dots> = 16 * (hex_value (take n (rows ! 0)) + hex_value (take n (rows ! 1))
         + hex_value (take n (rows ! 2)) + hex_value (take n (rows ! 3))) + (16 * (S div 16) + S mod 16)"
    unfolding val by (simp add: algebra_simps)
  also have "16 * (S div 16) + S mod 16 = S"
    by simp
  finally have "hex_value (digits @ [hex_digits ! (S mod 16)]) + 16 ^ Suc n * digit_value final =
      hex_value (take (Suc n) (rows ! 0)) + hex_value (take (Suc n) (rows ! 1))
         + hex_value (take (Suc n) (rows ! 2)) + hex_value (take (Suc n) (rows ! 3))
         + digit_value carry"
    unfolding t S_def by (simp add: algebra_simps)
  with res len low fin d show ?case
    by simp
qed

lemma below_4_cases: "j < 4 \<Longrightarrow> j \<in> set [0, 1, 2, 3 :: nat]"
  by (simp only: set_simps insert_iff empty_iff) arith

lemma digit_rowsI:
  assumes "length r0 = m" "length r1 = m" "length r2 = m" "length r3 = m"
    and "\<forall>c\<in>set r0. is_hex_digit c" "\<forall>c\<in>set r1. is_hex_digit c"
    and "\<forall>c\<in>set r2. is_hex_digit c" "\<forall>c\<in>set r3. is_hex_digit c"
  shows "digit_rows m [r0, r1, r2, r3]"
  unfolding digit_rows_def
proof (intro allI impI)
  fix j :: nat
  assume "j < 4"
  then have "j \<in> set [0, 1, 2, 3 :: nat]" by (rule below_4_cases)
  then have "j = 0 \<or> j = 1 \<or> j = 2 \<or> j = 3" by simp
  then show "m \<le> length ([r0, r1, r2, r3] ! j) \<and> (\<forall>i<m. is_hex_digit ([r0, r1, r2, r3] ! j ! i))"
    using assms by (elim disjE) simp_all
qed

lemma lower_digits_hex: "set s \<subseteq> set hex_digits \<Longrightarrow> \<forall>c\<in>set s. is_hex_digit c"
  using lower_is_hex_digit by blast


lemma combine_rows:
  assumes len: "length P0 = 2 * h" "length P1 = 2 * h" "length P2 = 2 * h" "length P3 = 2 * h"
    and low: "set P0 \<subseteq> set hex_digits" "set P1 \<subseteq> set hex_digits"
      "set P2 \<subseteq> set hex_digits" "set P3 \<subseteq> set hex_digits"
    and bound: "hex_value P0 * 16 ^ (2 * h) + (hex_value P1 + hex_value P2) * 16 ^ h
                 + hex_value P3 < 16 ^ (4 * h)"
  shows "\<exists>rows. shiftResults (2 * h) [P0 @ [LF], P1 @ [LF], P2 @ [LF], P3 @ [LF]] = Some rows
     \<and> sumResults rows (2 * (2 * h)) (CHR ''0'') =
         (to_hex (4 * h) (hex_value P0 * 16 ^ (2 * h) + (hex_value P1 + hex_value P2) * 16 ^ h
                           + hex_value P3), CHR ''0'')"
proof -
  let ?z = "CHR ''0''"
  define r0 where "r0 = P0 @ replicate (2 * h) ?z"
  define r1 where "r1 = replicate h ?z @ P1 @ replicate h ?z"
  define r2 where "r2 = replicate h ?z @ P2 @ replicate h ?z"
  define r3 where "r3 = replicate (2 * h) ?z @ P3"
  define T where "T = hex_value P0 * 16 ^ (2 * h) + (hex_value P1 + hex_value P2) * 16 ^ h
                           + hex_value P3"
  have shift: "shiftResults (2 * h) [P0 @ [LF], P1 @ [LF], P2 @ [LF], P3 @ [LF]] =
      Some [r0, r1, r2, r3]"
    using len shiftResults_rows [of "2 * h" "P0 @ [LF]" "P1 @ [LF]" "P2 @ [LF]" "P3 @ [LF]"]
    by (simp add: r0_def r1_def r2_def r3_def)
  have lens: "length r0 = 4 * h" "length r1 = 4 * h" "length r2 = 4 * h" "length r3 = 4 * h"
    using len by (simp_all add: r0_def r1_def r2_def r3_def)
  have z: "is_hex_digit ?z" using digit_value_zero by simp
  have digs: "\<forall>c\<in>set r0. is_hex_digit c" "\<forall>c\<in>set r1. is_hex_digit c"
    "\<forall>c\<in>set r2. is_hex_digit c" "\<forall>c\<in>set r3. is_hex_digit c"
    using low [THEN lower_digits_hex] z by (auto simp: r0_def r1_def r2_def r3_def)
  have rows: "digit_rows (4 * h) [r0, r1, r2, r3]"
    using lens digs by (rule digit_rowsI)
  have vals: "hex_value r0 = hex_value P0 * 16 ^ (2 * h)"
    "hex_value r1 = hex_value P1 * 16 ^ h" "hex_value r2 = hex_value P2 * 16 ^ h"
    "hex_value r3 = hex_value P3"
    by (simp_all add: r0_def r1_def r2_def r3_def hex_value_append hex_value_zeros)
  have zl: "?z \<in> set hex_digits" by (simp add: hex_digits_def)
  from sumResults_value [OF rows zl]
  obtain digits final where
    res: "sumResults [r0, r1, r2, r3] (4 * h) ?z = (digits, final)"
    and dl: "length digits = 4 * h" and dlow: "set digits \<subseteq> set hex_digits"
    and fin: "final \<in> set hex_digits"
    and val: "hex_value digits + 16 ^ (4 * h) * digit_value final =
         hex_value (take (4 * h) ([r0, r1, r2, r3] ! 0)) + hex_value (take (4 * h) ([r0, r1, r2, r3] ! 1))
         + hex_value (take (4 * h) ([r0, r1, r2, r3] ! 2)) + hex_value (take (4 * h) ([r0, r1, r2, r3] ! 3))
         + digit_value ?z"
    by blast
  have "hex_value digits + 16 ^ (4 * h) * digit_value final = T"
    using val lens vals digit_value_zero by (simp add: T_def algebra_simps)
  moreover have "T < 16 ^ (4 * h)"
    using bound by (simp add: T_def)
  ultimately have f0: "digit_value final = 0" and dv: "hex_value digits = T"
    by (cases "digit_value final"; simp)+
  have "final = hex_digits ! digit_value final"
    using fin by (simp add: lower_digit_nth)
  then have final: "final = ?z"
    by (simp add: f0 hex_digits_def)
  have "to_hex (length digits) (hex_value digits) = digits"
    using dlow by (rule to_hex_unique)
  then have "digits = to_hex (4 * h) T"
    by (simp add: dl dv)
  with res final shift show ?thesis
    by (simp add: T_def)
qed

lemma product_of_halves:
  fixes ah al bh bl h :: nat
  shows "(ah * 16 ^ h + al) * (bh * 16 ^ h + bl) =
   (ah * bh) * 16 ^ (2 * h) + (ah * bl + al * bh) * 16 ^ h + al * bl"
proof -
  have "(16::nat) ^ (2 * h) = 16 ^ h * 16 ^ h"
    by (simp add: mult_2 power_add)
  then show ?thesis
    by (simp only: distrib_left distrib_right mult.assoc mult.left_commute mult.commute add.assoc)
qed

lemma product_bound:
  fixes a b n :: nat
  assumes "a < 16 ^ n" "b < 16 ^ n"
  shows "a * b < 16 ^ (2 * n)"
proof -
  have "a * b < 16 ^ n * 16 ^ n"
    using assms by (rule mult_strict_mono') simp_all
  then show ?thesis
    by (simp add: mult_2 power_add)
qed

lemma halves_value:
  assumes "length Ah = h" "length Al = h" "\<forall>c\<in>set Ah. is_hex_digit c" "\<forall>c\<in>set Al. is_hex_digit c"
  shows "hex_value (Ah @ Al) = hex_value Ah * 16 ^ h + hex_value Al"
    and "hex_value (Ah @ Al) < 16 ^ (2 * h)"
proof -
  show v: "hex_value (Ah @ Al) = hex_value Ah * 16 ^ h + hex_value Al"
    using assms by (simp add: hex_value_append)
  have "\<forall>c\<in>set (Ah @ Al). is_hex_digit c"
    using assms by auto
  then have "hex_value (Ah @ Al) < 16 ^ length (Ah @ Al)"
    by (rule hex_value_bound)
  then show "hex_value (Ah @ Al) < 16 ^ (2 * h)"
    using assms by (simp add: mult_2)
qed

lemma partial_products_total:
  assumes "length Ah = h" "length Al = h" "length Bh = h" "length Bl = h"
    and "\<forall>c\<in>set Ah. is_hex_digit c" "\<forall>c\<in>set Al. is_hex_digit c"
    and "\<forall>c\<in>set Bh. is_hex_digit c" "\<forall>c\<in>set Bl. is_hex_digit c"
  shows "(hex_value Ah * hex_value Bh) * 16 ^ (2 * h)
         + (hex_value Ah * hex_value Bl + hex_value Al * hex_value Bh) * 16 ^ h
         + hex_value Al * hex_value Bl = hex_value (Ah @ Al) * hex_value (Bh @ Bl)"
    and "(hex_value Ah * hex_value Bh) * 16 ^ (2 * h)
         + (hex_value Ah * hex_value Bl + hex_value Al * hex_value Bh) * 16 ^ h
         + hex_value Al * hex_value Bl < 16 ^ (4 * h)"
proof -
  note a = halves_value [OF assms(1,2,5,6)] and b = halves_value [OF assms(3,4,7,8)]
  show t: "(hex_value Ah * hex_value Bh) * 16 ^ (2 * h)
         + (hex_value Ah * hex_value Bl + hex_value Al * hex_value Bh) * 16 ^ h
         + hex_value Al * hex_value Bl = hex_value (Ah @ Al) * hex_value (Bh @ Bl)"
    unfolding a(1) b(1) by (rule product_of_halves [symmetric])
  have "hex_value (Ah @ Al) * hex_value (Bh @ Bl) < 16 ^ (2 * (2 * h))"
    using a(2) b(2) by (rule product_bound)
  then show "(hex_value Ah * hex_value Bh) * 16 ^ (2 * h)
         + (hex_value Ah * hex_value Bl + hex_value Al * hex_value Bh) * 16 ^ h
         + hex_value Al * hex_value Bl < 16 ^ (4 * h)"
    unfolding t by simp
qed

section \<open>The combiner\<close>

text \<open>
  Claim C4. The summation loop goes through the columns from the least significant one,
  and at every column the four digits are added one after the other, each call of
  \<^verbatim>\<open>addHexDigits\<close> adding what it carries to the carry so far. For rows of hexadecimal
  digits and every hexadecimal digit as incoming carry: the digit that the loop leaves at
  position \<open>i\<close> of \<^verbatim>\<open>final_result\<close> is the column sum \<open>d0 + d1 + d2 + d3 + carry_in\<close>
  modulo 16, the carry with which it goes on to the columns above is the column sum divided
  by 16 (again a hexadecimal digit), and the digits of all columns with the last carry are
  the sum of the four rows and the incoming carry.
\<close>

theorem sumResults_column_formula:
  assumes "digit_rows (Suc i) rows" "is_hex_digit carry_in"
  shows
  "let s = digit_value (rows ! 0 ! i) + digit_value (rows ! 1 ! i)
           + digit_value (rows ! 2 ! i) + digit_value (rows ! 3 ! i) + digit_value carry_in;
       digit = hex_digits ! (s mod 16);
       carry_out = hex_digits ! (s div 16)
   in addColumn rows i carry_in = (digit, carry_out)
      \<and> digit_value digit = s mod 16 \<and> digit_value carry_out = s div 16
      \<and> is_hex_digit carry_out
      \<and> sumResults rows (Suc i) carry_in =
          (fst (sumResults rows i carry_out) @ [digit], snd (sumResults rows i carry_out))
      \<and> length (fst (sumResults rows (Suc i) carry_in)) = Suc i
      \<and> hex_value (fst (sumResults rows (Suc i) carry_in))
          + 16 ^ Suc i * digit_value (snd (sumResults rows (Suc i) carry_in)) =
          hex_value (take (Suc i) (rows ! 0)) + hex_value (take (Suc i) (rows ! 1))
          + hex_value (take (Suc i) (rows ! 2)) + hex_value (take (Suc i) (rows ! 3))
          + digit_value carry_in"
proof -
  let ?d0 = "digit_value (rows ! 0 ! i)" and ?d1 = "digit_value (rows ! 1 ! i)"
  let ?d2 = "digit_value (rows ! 2 ! i)" and ?d3 = "digit_value (rows ! 3 ! i)"
  define S where "S = ?d0 + ?d1 + ?d2 + ?d3 + digit_value carry_in"
  define digit where "digit = hex_digits ! (S mod 16)"
  define carry_out where "carry_out = hex_digits ! (S div 16)"
  note col = digit_rows_column [OF assms(1)]
  have column: "addColumn rows i carry_in = (digit, carry_out)"
    unfolding S_def digit_def carry_out_def by (rule addColumn_sum [OF col assms(2)])
  have "?d0 < 16" "?d1 < 16" "?d2 < 16" "?d3 < 16" "digit_value carry_in < 16"
    using col assms(2) by (simp_all add: digit_value_lt)
  then have "S < 80" unfolding S_def by arith
  then have q: "S div 16 < 16" by arith
  have c': "carry_out \<in> set hex_digits" and vc: "digit_value carry_out = S div 16"
    unfolding carry_out_def using hex_digits_nth [OF q] by simp_all
  have vd: "digit_value digit = S mod 16"
    unfolding digit_def using hex_digits_nth [of "S mod 16"] by simp
  have hc: "is_hex_digit carry_out"
    using c' by (rule lower_is_hex_digit)
  from sumResults_value [OF digit_rows_Suc [OF assms(1)] c']
  obtain digits final where
    rec: "sumResults rows i carry_out = (digits, final)"
    and len: "length digits = i"
    and val: "hex_value digits + 16 ^ i * digit_value final =
         hex_value (take i (rows ! 0)) + hex_value (take i (rows ! 1))
         + hex_value (take i (rows ! 2)) + hex_value (take i (rows ! 3)) + S div 16"
    unfolding vc by blast
  have res: "sumResults rows (Suc i) carry_in = (digits @ [digit], final)"
    by (simp add: column rec)
  have t: "hex_value (take (Suc i) (rows ! 0)) = 16 * hex_value (take i (rows ! 0)) + ?d0"
    "hex_value (take (Suc i) (rows ! 1)) = 16 * hex_value (take i (rows ! 1)) + ?d1"
    "hex_value (take (Suc i) (rows ! 2)) = 16 * hex_value (take i (rows ! 2)) + ?d2"
    "hex_value (take (Suc i) (rows ! 3)) = 16 * hex_value (take i (rows ! 3)) + ?d3"
    using digit_rows_take [OF assms(1)] by simp_all
  have "hex_value (digits @ [digit]) + 16 ^ Suc i * digit_value final =
        16 * (hex_value digits + 16 ^ i * digit_value final) + S mod 16"
    by (simp add: hex_value_snoc vd algebra_simps)
  also have "\<dots> = 16 * (hex_value (take i (rows ! 0)) + hex_value (take i (rows ! 1))
         + hex_value (take i (rows ! 2)) + hex_value (take i (rows ! 3)))
         + (16 * (S div 16) + S mod 16)"
    unfolding val by (simp add: algebra_simps)
  also have "16 * (S div 16) + S mod 16 = S"
    by simp
  finally have total: "hex_value (digits @ [digit]) + 16 ^ Suc i * digit_value final =
      hex_value (take (Suc i) (rows ! 0)) + hex_value (take (Suc i) (rows ! 1))
         + hex_value (take (Suc i) (rows ! 2)) + hex_value (take (Suc i) (rows ! 3))
         + digit_value carry_in"
    unfolding t S_def by (simp add: algebra_simps)
  have "addColumn rows i carry_in = (digit, carry_out)
      \<and> digit_value digit = S mod 16 \<and> digit_value carry_out = S div 16
      \<and> is_hex_digit carry_out
      \<and> sumResults rows (Suc i) carry_in =
          (fst (sumResults rows i carry_out) @ [digit], snd (sumResults rows i carry_out))
      \<and> length (fst (sumResults rows (Suc i) carry_in)) = Suc i
      \<and> hex_value (fst (sumResults rows (Suc i) carry_in))
          + 16 ^ Suc i * digit_value (snd (sumResults rows (Suc i) carry_in)) =
          hex_value (take (Suc i) (rows ! 0)) + hex_value (take (Suc i) (rows ! 1))
          + hex_value (take (Suc i) (rows ! 2)) + hex_value (take (Suc i) (rows ! 3))
          + digit_value carry_in"
    unfolding res rec fst_conv snd_conv
    using column vd vc hc len total by simp
  then show ?thesis
    unfolding Let_def S_def digit_def carry_out_def .
qed

text \<open>
  The rows \<open>1f\<close>, \<open>2F\<close>, \<open>3f\<close>, \<open>4f\<close> with the incoming carry 4: the column of the
  four \<open>f\<close> and the carry sums to 64, digit 0 and carry 4; the column above sums to
  \<open>1 + 2 + 3 + 4 + 4 = 14\<close>, digit \<open>e\<close> and carry 0.
\<close>

theorem sumResults_column_formula_witness:
  "sumResults [''1f'', ''2F'', ''3f'', ''4f''] 2 (CHR ''4'') = (''e0'', CHR ''0'')
   \<and> addColumn [''1f'', ''2F'', ''3f'', ''4f''] 1 (CHR ''4'') = (CHR ''0'', CHR ''4'')"
proof -
  let ?rows = "[''1f'', ''2F'', ''3f'', ''4f'']"
  have rows: "digit_rows (Suc (Suc 0)) ?rows"
    unfolding digit_rows_def
  proof (intro allI impI)
    fix j :: nat
    assume "j < 4"
    then have "j \<in> set [0, 1, 2, 3 :: nat]" by (rule below_4_cases)
    then show "Suc (Suc 0) \<le> length (?rows ! j) \<and> (\<forall>i<Suc (Suc 0). is_hex_digit (?rows ! j ! i))"
      by (auto simp: is_hex_digit_def less_Suc_eq)
  qed
  have c: "is_hex_digit (CHR ''4'')"
    by (simp add: is_hex_digit_def)
  have v: "digit_value (CHR ''f'') = 15" "digit_value (CHR ''F'') = 15"
    "digit_value (CHR ''4'') = 4" "digit_value (CHR ''1'') = 1" "digit_value (CHR ''2'') = 2"
    "digit_value (CHR ''3'') = 3"
    by (simp_all add: digit_value_def)
  have h: "hex_digits ! 0 = CHR ''0''" "hex_digits ! 4 = CHR ''4''" "hex_digits ! 14 = CHR ''e''"
    by (simp_all add: hex_digits_def)
  from sumResults_column_formula [OF rows c]
  have col1: "addColumn ?rows (Suc 0) (CHR ''4'') = (CHR ''0'', CHR ''4'')"
    and top: "sumResults ?rows (Suc (Suc 0)) (CHR ''4'') =
        (fst (sumResults ?rows (Suc 0) (CHR ''4'')) @ [CHR ''0''],
         snd (sumResults ?rows (Suc 0) (CHR ''4'')))"
    unfolding Let_def by (simp_all add: v h del: sumResults.simps)
  from sumResults_column_formula [OF digit_rows_Suc [OF rows] c]
  have "sumResults ?rows (Suc 0) (CHR ''4'') =
      (fst (sumResults ?rows 0 (CHR ''0'')) @ [CHR ''e''], snd (sumResults ?rows 0 (CHR ''0'')))"
    unfolding Let_def by (simp add: v h del: sumResults.simps)
  then have "sumResults ?rows (Suc 0) (CHR ''4'') = ([CHR ''e''], CHR ''0'')"
    by (simp only: sumResults.simps fst_conv snd_conv append_Nil)
  with top col1 show ?thesis
    by (simp add: numeral_2_eq_2 del: sumResults.simps)
qed

text \<open>
  Claim C5. The four partial products of \<open>n\<close> digits, as read from the children (each a
  line), are placed in rows of \<open>2 * n\<close> cells: product 0 followed by \<open>n\<close> zeros, products
  1 and 2 between \<open>n div 2\<close> zeros on either side, product 3 after \<open>n\<close> zeros. Read as
  numbers the rows are the products times \<open>16 ^ n\<close>, \<open>16 ^ (n div 2)\<close> and 1. The
  length \<open>n\<close> is even wherever the program shifts (it is a power of two above 1).
\<close>

theorem shiftResults_positions:
  assumes "length P0 = n" "length P1 = n" "length P2 = n" "length P3 = n" "even n"
  shows "let zero = CHR ''0'';
             row0 = P0 @ replicate n zero;
             row1 = replicate (n div 2) zero @ P1 @ replicate (n div 2) zero;
             row2 = replicate (n div 2) zero @ P2 @ replicate (n div 2) zero;
             row3 = replicate n zero @ P3
         in shiftResults n [P0 @ [LF], P1 @ [LF], P2 @ [LF], P3 @ [LF]]
              = Some [row0, row1, row2, row3]
            \<and> length row0 = 2 * n \<and> length row1 = 2 * n
            \<and> length row2 = 2 * n \<and> length row3 = 2 * n
            \<and> hex_value row0 = hex_value P0 * 16 ^ n
            \<and> hex_value row1 = hex_value P1 * 16 ^ (n div 2)
            \<and> hex_value row2 = hex_value P2 * 16 ^ (n div 2)
            \<and> hex_value row3 = hex_value P3"
proof -
  from \<open>even n\<close> have h: "n - n div 2 = n div 2" "n div 2 + (n + n div 2) = 2 * n"
    by (auto elim: evenE)
  have "shiftResults n [P0 @ [LF], P1 @ [LF], P2 @ [LF], P3 @ [LF]] =
      Some [P0 @ replicate n (CHR ''0''),
            replicate (n div 2) (CHR ''0'') @ P1 @ replicate (n div 2) (CHR ''0''),
            replicate (n div 2) (CHR ''0'') @ P2 @ replicate (n div 2) (CHR ''0''),
            replicate n (CHR ''0'') @ P3]"
    using assms(1-4) shiftResults_rows [of n "P0 @ [LF]" "P1 @ [LF]" "P2 @ [LF]" "P3 @ [LF]"]
    by (simp add: h)
  then show ?thesis
    using assms(1-4) h(2)
    by (simp add: Let_def hex_value_append hex_value_zeros)
qed

theorem shiftResults_positions_witness:
  "shiftResults 2 [''e1'' @ [LF], ''4b'' @ [LF], ''4b'' @ [LF], ''19'' @ [LF]]
     = Some [''e100'', ''04b0'', ''04b0'', ''0019'']"
proof -
  have r: "replicate 2 (CHR ''0'') = ''00''"
    by (simp add: numeral_2_eq_2)
  have l: "length ''e1'' = 2" "length ''4b'' = 2" "length ''19'' = 2" "even (2::nat)"
    by simp_all
  from shiftResults_positions [OF l(1,2,2,3,4)] show ?thesis
    by (simp add: Let_def r)
qed

text \<open>
  Claim C8. When the four partial products are the products of the halves of two operands
  of \<open>2 * h\<close> digits, the summation loop ends with the carry \<^verbatim>\<open>'0'\<close> out of the most
  significant column, and the digits it leaves are the product of the two operands on
  \<open>4 * h\<close> digits.
\<close>

theorem final_carry_zero:
  assumes "length Ah = h" "length Al = h" "length Bh = h" "length Bl = h"
    and "\<forall>c\<in>set Ah. is_hex_digit c" "\<forall>c\<in>set Al. is_hex_digit c"
    and "\<forall>c\<in>set Bh. is_hex_digit c" "\<forall>c\<in>set Bl. is_hex_digit c"
    and "length P0 = 2 * h" "length P1 = 2 * h" "length P2 = 2 * h" "length P3 = 2 * h"
    and "set P0 \<subseteq> set hex_digits" "set P1 \<subseteq> set hex_digits"
      "set P2 \<subseteq> set hex_digits" "set P3 \<subseteq> set hex_digits"
    and "hex_value P0 = hex_value Ah * hex_value Bh" "hex_value P1 = hex_value Ah * hex_value Bl"
      "hex_value P2 = hex_value Al * hex_value Bh" "hex_value P3 = hex_value Al * hex_value Bl"
  shows "\<exists>rows. shiftResults (2 * h) [P0 @ [LF], P1 @ [LF], P2 @ [LF], P3 @ [LF]] = Some rows
     \<and> sumResults rows (2 * (2 * h)) (CHR ''0'') =
         (to_hex (4 * h) (hex_value (Ah @ Al) * hex_value (Bh @ Bl)), CHR ''0'')"
proof -
  note total = partial_products_total [OF assms(1-8)]
  have "hex_value P0 * 16 ^ (2 * h) + (hex_value P1 + hex_value P2) * 16 ^ h + hex_value P3
        < 16 ^ (4 * h)"
    unfolding assms(17-20) by (rule total(2))
  from combine_rows [OF assms(9-16) this] show ?thesis
    unfolding assms(17-20) total(1) .
qed

theorem final_carry_zero_witness:
  "snd (sumResults [''e100'', ''04b0'', ''04b0'', ''0019''] 4 (CHR ''0'')) = CHR ''0''"
proof -
  have d: "\<forall>c\<in>set ''f''. is_hex_digit c" "\<forall>c\<in>set ''5''. is_hex_digit c"
    by (simp_all add: is_hex_digit_def)
  have l: "length ''f'' = 1" "length ''5'' = 1"
    "length ''e1'' = 2 * 1" "length ''4b'' = 2 * 1" "length ''19'' = 2 * 1"
    by simp_all
  have s: "set ''e1'' \<subseteq> set hex_digits" "set ''4b'' \<subseteq> set hex_digits"
    "set ''19'' \<subseteq> set hex_digits"
    by (simp_all add: hex_digits_def)
  have v: "hex_value ''e1'' = hex_value ''f'' * hex_value ''f''"
    "hex_value ''4b'' = hex_value ''f'' * hex_value ''5''"
    "hex_value ''4b'' = hex_value ''5'' * hex_value ''f''"
    "hex_value ''19'' = hex_value ''5'' * hex_value ''5''"
    by (simp_all add: hex_value_def digit_value_def)
  from final_carry_zero [OF l(1,2,1,2) d(1,2,1,2) l(3,4,4,5) s(1,2,2,3) v]
  obtain rows where
    "shiftResults (2 * 1) [''e1'' @ [LF], ''4b'' @ [LF], ''4b'' @ [LF], ''19'' @ [LF]] = Some rows"
    and r: "snd (sumResults rows (2 * (2 * 1)) (CHR ''0'')) = CHR ''0''"
    by auto
  moreover have "shiftResults (2 * 1) [''e1'' @ [LF], ''4b'' @ [LF], ''4b'' @ [LF], ''19'' @ [LF]]
      = Some [''e100'', ''04b0'', ''04b0'', ''0019'']"
    using shiftResults_rows [of 2 "''e1'' @ [LF]" "''4b'' @ [LF]" "''4b'' @ [LF]" "''19'' @ [LF]"]
    by (simp add: numeral_2_eq_2)
  ultimately have "rows = [''e100'', ''04b0'', ''04b0'', ''0019'']"
    by simp
  with r show ?thesis by simp
qed

section \<open>Reading two lines of digits\<close>












section \<open>The recursion\<close>

lemma main_run:
  assumes "readInput stdin = Inr (readA, readB)"
    and "padAndAlignNumbers True readA readB = Some (Inr (inputA, inputB))"
  shows "main 1 stdin =
     (if strlen inputA > 1 then
        (case splitNumbers inputA inputB of
           None \<Rightarrow> None
         | Some (Ah, Al, Bh, Bl) \<Rightarrow>
             Option.bind (main 1 (sendInputToChild Ah Bh)) (\<lambda>child0.
             Option.bind (main 1 (sendInputToChild Ah Bl)) (\<lambda>child1.
             Option.bind (main 1 (sendInputToChild Al Bh)) (\<lambda>child2.
             Option.bind (main 1 (sendInputToChild Al Bl)) (\<lambda>child3.
               collectAndCombine (strlen inputA) [child0, child1, child2, child3])))))
      else if strlen inputA = 1 then
        Some \<lparr>status = 0, out = baseCase inputA inputB, err = []\<rparr>
      else Some \<lparr>status = 0, out = [], err = []\<rparr>)"
  by (subst main.simps) (simp add: assms Let_def)















section \<open>Invalid input\<close>

lemma cval_nat:
  "cval c = (if (of_char c :: nat) < 128 then int (of_char c) else int (of_char c) - 256)"
proof -
  have "(of_char c :: int) = int (of_char c)"
    by (simp add: of_nat_of_char)
  then show ?thesis
    by (simp add: cval_def Let_def)
qed

lemma cval_between:
  assumes "int lo \<le> cval c" "cval c \<le> int hi"
  shows "lo \<le> of_char c \<and> (of_char c :: nat) \<le> hi"
proof (cases "(of_char c :: nat) < 128")
  case True
  with assms show ?thesis
    unfolding cval_nat by simp
next
  case False
  have "int (of_char c) < 256"
    by simp
  with False assms have False
    unfolding cval_nat by simp
  then show ?thesis ..
qed

lemma is_hex_digit_code:
  "is_hex_digit c \<longleftrightarrow>
     (of_char c :: nat) \<in> of_char ` set ''0123456789abcdefABCDEF''"
  unfolding is_hex_digit_def by (simp only: inj_image_mem_iff [OF inj_of_char])

lemma hex_digit_codes:
  "(of_char ` set ''0123456789abcdefABCDEF'' :: nat set) =
     {48, 49, 50, 51, 52, 53, 54, 55, 56, 57, 97, 98, 99, 100, 101, 102, 65, 66, 67, 68, 69, 70}"
  by simp

lemma code_in_ranges:
  "(48 \<le> n \<and> n \<le> 57) \<or> (97 \<le> n \<and> n \<le> 102) \<or> (65 \<le> n \<and> n \<le> 70) \<Longrightarrow>
   n \<in> {48, 49, 50, 51, 52, 53, 54, 55, 56, 57, 97, 98, 99, 100, 101, 102, 65, 66, 67, 68, 69, 70 :: nat}"
  by (simp only: insert_iff empty_iff) arith

lemma validator_test_digit:
  assumes "(cval c \<ge> cval (CHR ''0'') \<and> cval c \<le> cval (CHR ''9''))
           \<or> (cval c \<ge> cval (CHR ''a'') \<and> cval c \<le> cval (CHR ''f''))
           \<or> (cval c \<ge> cval (CHR ''A'') \<and> cval c \<le> cval (CHR ''F''))"
  shows "is_hex_digit c"
proof -
  have v: "cval (CHR ''0'') = int 48" "cval (CHR ''9'') = int 57" "cval (CHR ''a'') = int 97"
    "cval (CHR ''f'') = int 102" "cval (CHR ''A'') = int 65" "cval (CHR ''F'') = int 70"
    by (simp_all add: cval_def)
  from assms have "(48 \<le> (of_char c :: nat) \<and> (of_char c :: nat) \<le> 57)
      \<or> (97 \<le> (of_char c :: nat) \<and> (of_char c :: nat) \<le> 102)
      \<or> (65 \<le> (of_char c :: nat) \<and> (of_char c :: nat) \<le> 70)"
    unfolding v using cval_between [of _ c] by blast
  then have "(of_char c :: nat) \<in> of_char ` set ''0123456789abcdefABCDEF''"
    unfolding hex_digit_codes by (rule code_in_ranges)
  then show ?thesis
    by (simp only: is_hex_digit_code)
qed

lemma isValidHexadecimal_rejects:
  assumes "c \<in> set s" "\<not> is_hex_digit c" "c \<noteq> LF" "NUL \<notin> set s"
  shows "isValidHexadecimal s = 0"
  using assms(1,4)
proof (induction s)
  case Nil
  then show ?case by simp
next
  case (Cons x s)
  show ?case
  proof (cases "x = c")
    case True
    with assms(2,3) Cons.prems(2) show ?thesis
      using validator_test_digit [of c] by auto
  next
    case False
    with Cons have "isValidHexadecimal s = 0" by simp
    moreover from Cons.prems(2) have "x \<noteq> NUL" by auto
    ultimately show ?thesis
      by simp
  qed
qed

lemma getline_Some:
  assumes "getline stream = Some (line, rest)"
  shows "set (first_line stream) \<subseteq> set line" "set line \<subseteq> set stream"
    "rest = after_first_line stream"
proof -
  let ?P = "\<lambda>c. c \<noteq> LF"
  have ne: "stream \<noteq> []"
    using assms by (auto simp: getline_def)
  have "set (first_line stream) \<subseteq> set line \<and> set line \<subseteq> set stream
      \<and> rest = after_first_line stream"
  proof (cases "dropWhile ?P stream")
    case Nil
    have l: "line = stream" "rest = []"
      using assms ne unfolding getline_def Nil by simp_all
    from Nil have t: "takeWhile ?P stream = stream"
      by (simp add: takeWhile_eq_all_conv)
    show ?thesis
      unfolding first_line_def after_first_line_def t l by simp
  next
    case (Cons x xs)
    have l: "line = takeWhile ?P stream @ [LF]" "rest = xs"
      using assms ne unfolding getline_def Cons by simp_all
    from Cons have "x = LF"
      using hd_dropWhile [of ?P stream] by simp
    with Cons have d: "drop (length (takeWhile ?P stream)) stream = LF # xs"
      by (simp add: dropWhile_eq_drop)
    then have "LF \<in> set stream"
      by (metis in_set_dropD list.set_intros(1))
    moreover have "set (takeWhile ?P stream) \<subseteq> set stream"
      by (auto dest: set_takeWhileD)
    moreover have "drop (Suc (length (takeWhile ?P stream))) stream = xs"
      using d by (metis drop_Suc list.sel(3) tl_drop)
    ultimately show ?thesis
      using l by (auto simp: first_line_def after_first_line_def)
  qed
  then show "set (first_line stream) \<subseteq> set line" "set line \<subseteq> set stream"
    "rest = after_first_line stream"
    by simp_all
qed

lemma first_line_no_LF: "LF \<notin> set (first_line stream)"
  unfolding first_line_def by (auto dest: set_takeWhileD)

lemma line_rejected:
  assumes "getline stream = Some (line, rest)" "NUL \<notin> set stream"
    and "c \<in> set (first_line stream)" "\<not> is_hex_digit c"
  shows "isValidHexadecimal line = 0"
proof (rule isValidHexadecimal_rejects)
  note g = getline_Some [OF assms(1)]
  show "c \<in> set line" using g(1) assms(3) by blast
  show "\<not> is_hex_digit c" by fact
  show "c \<noteq> LF" using assms(3) first_line_no_LF by blast
  show "NUL \<notin> set line" using g(2) assms(2) by blast
qed

lemma readInput_rejects:
  assumes "NUL \<notin> set stdin"
    and "c \<in> set (first_line stdin) \<or> c \<in> set (first_line (after_first_line stdin))"
    and "\<not> is_hex_digit c"
  shows "\<exists>d. readInput stdin = Inl d"
proof (cases "getline stdin")
  case None
  then show ?thesis by (simp add: readInput_def)
next
  case (Some p)
  obtain inputA rest where p: "p = (inputA, rest)" by (cases p)
  note gA = Some [unfolded p]
  note rest = getline_Some(3) [OF gA]
  show ?thesis
  proof (cases "getline rest")
    case None
    with gA show ?thesis by (simp add: readInput_def)
  next
    case (Some q)
    obtain inputB rest' where q: "q = (inputB, rest')" by (cases q)
    note gB = Some [unfolded q]
    have "NUL \<notin> set rest"
      unfolding rest after_first_line_def using assms(1) by (auto dest: in_set_dropD)
    with assms(2) have "isValidHexadecimal inputA = 0 \<or> isValidHexadecimal inputB = 0"
      using line_rejected [OF gA assms(1) _ assms(3)]
        line_rejected [OF gB _ _ assms(3)] rest by blast
    with gA gB show ?thesis
      by (auto simp: readInput_def)
  qed
qed

text \<open>
  On an input without NUL bytes, a character that is not a hexadecimal digit in the first
  or in the second line makes the program exit with \<^verbatim>\<open>EXIT_FAILURE\<close>, one diagnostic
  and nothing on \<^verbatim>\<open>stdout\<close>.
\<close>

lemma main_rejects_invalid:
  assumes "NUL \<notin> set stdin"
    and "c \<in> set (first_line stdin) \<or> c \<in> set (first_line (after_first_line stdin))"
    and "\<not> is_hex_digit c"
  shows "\<exists>d. main argc stdin = Some \<lparr>status = EXIT_FAILURE, out = [], err = [d]\<rparr>"
proof (cases "argc = 1")
  case False
  then show ?thesis
    by (subst main.simps) (simp add: failure_def)
next
  case True
  from readInput_rejects [OF assms] obtain d where "readInput stdin = Inl d" ..
  with True have "main argc stdin = Some (failure d)"
    by (subst main.simps) simp
  then show ?thesis
    by (simp add: failure_def)
qed

lemma readInput_after_NUL:
  "readInput [NUL, CHR ''g'', LF, CHR ''1'', LF] = Inr ([NUL, CHR ''g'', LF], [CHR ''1'', NUL])"
  by (simp add: readInput_def getline_def trimNewline_def strlen_def cstr_def cval_def)

lemma padAndAlignNumbers_after_NUL:
  "padAndAlignNumbers True [NUL, CHR ''g'', LF] [CHR ''1'', NUL] = Some (Inr (''0'', ''1''))"
proof -
  have n: "nextPow2 (Suc 0) = 1"
    by (simp add: nextPow2.simps [of "Suc 0"])
  have "strlen [NUL, CHR ''g'', LF] \<le> 2 ^ 30" "strlen [CHR ''1'', NUL] \<le> 2 ^ 30"
    by (simp_all add: strlen_def cstr_def)
  from padAndAlignNumbers_eq [OF this] show ?thesis
    by (simp add: strlen_def cstr_def n)
qed

text \<open>
  Claim C9 says that a character that is not a hexadecimal digit, in either line, makes the
  program fail without output. \<^verbatim>\<open>getline\<close> stores NUL bytes like any other, and
  \<^verbatim>\<open>isValidHexadecimal\<close>, \<^verbatim>\<open>strlen\<close> and \<^verbatim>\<open>strcpy\<close> stop at the first of them:
  on the input of the five bytes NUL, \<open>g\<close>, line feed, \<open>1\<close>, line feed the first line is
  taken for the empty string (which the check for an empty line, made on the line feed
  alone, lets through), padded to \<open>0\<close>, and the program prints \<open>00\<close> with exit status 0.
\<close>

theorem main_accepts_line_after_NUL:
  "main 1 [NUL, CHR ''g'', LF, CHR ''1'', LF] = Some \<lparr>status = 0, out = ''00'' @ [LF], err = []\<rparr>"
proof -
  have z: "is_hex_digit (CHR ''0'')" "is_hex_digit (CHR ''1'')"
    by (simp_all add: is_hex_digit_def)
  have "baseCase ''0'' ''1'' = ''00'' @ [LF]"
    using baseCase_digits [OF z] by (simp add: digit_value_def hex_digits_def)
  then show ?thesis
    unfolding main_run [OF readInput_after_NUL padAndAlignNumbers_after_NUL]
    by (simp add: strlen_def cstr_def)
qed

end
